theory Spec2Isabelle
  imports Main
begin

section \<open>The asynchronous QPS throttle (src/async\_throttle.ts)\<close>

text \<open>
  The throttle is a single-threaded object: every mutation happens inside one of three
  entry points (a call of \<open>callThrottled\<close>, the \<open>finally\<close> reaction attached to the promise
  of a started work item, the callback of the expiration timer).  The embedding keeps the
  data as the source has it: \<open>Work\<close> objects live in a store indexed by references and are
  linked by their \<open>prev\<close>/\<open>next\<close> fields into a circular list around the sentinel
  \<open>workList\<close>; the throttle's fields are fields of the state record.  The host environment
  (clock, pending timeouts, object allocation) and a history of what happened (which work
  functions were invoked and when) are further fields of the same record.
\<close>

subsection \<open>Values, errors and promises\<close>

type_synonym ref = nat
type_synonym val = nat

datatype error = TypeError | Error nat

text \<open>The state of a settled promise; a pending promise is \<open>None\<close>.\<close>

datatype outcome = Fulfilled val | Rejected error

text \<open>
  A work function \<open>startWork: () => Promise<T>\<close> is invoked at most once.  It is opaque to
  the throttle, which only sees what the invocation does: it throws, or it returns a
  promise (whose settlement is a later event).
\<close>

datatype work_fn = Throws error | ReturnsPromise

subsection \<open>class Work\<close>

record work =
  startWork :: work_fn
  whenComplete :: "outcome option"
  settleCalls :: nat
  expirationTime :: int
  prev :: ref
  nxt :: ref

text \<open>The constructor; \<open>this\<close> is the reference of the new object.\<close>

definition new_Work :: "work_fn \<Rightarrow> ref \<Rightarrow> work" where
  "new_Work sw this =
     \<lparr>startWork = sw, whenComplete = None, settleCalls = 0, expirationTime = 0,
      prev = this, nxt = this\<rparr>"

type_synonym store = "ref \<Rightarrow> work"

definition insertAfter :: "ref \<Rightarrow> ref \<Rightarrow> store \<Rightarrow> store" where
  "insertAfter this w h =
     (let h1 = h(this := (h this)\<lparr>prev := w\<rparr>);
          h2 = h1(this := (h1 this)\<lparr>nxt := nxt (h1 w)\<rparr>);
          h3 = h2(prev (h2 this) := (h2 (prev (h2 this)))\<lparr>nxt := this\<rparr>);
          h4 = h3(nxt (h3 this) := (h3 (nxt (h3 this)))\<lparr>prev := this\<rparr>)
      in h4)"

definition remove :: "ref \<Rightarrow> store \<Rightarrow> store" where
  "remove this h =
     (let h1 = h(prev (h this) := (h (prev (h this)))\<lparr>nxt := nxt (h this)\<rparr>);
          h2 = h1(nxt (h1 this) := (h1 (nxt (h1 this)))\<lparr>prev := prev (h1 this)\<rparr>)
      in h2)"

text \<open>
  \<open>resolve\<close> and \<open>reject\<close> are the resolution functions of \<open>whenComplete\<close>: the first call
  settles the promise, later calls have no effect.  \<open>settleCalls\<close> counts the calls.
\<close>

definition settle :: "outcome \<Rightarrow> work \<Rightarrow> work" where
  "settle out w =
     w\<lparr>whenComplete := (case whenComplete w of None \<Rightarrow> Some out | Some old \<Rightarrow> Some old),
       settleCalls := settleCalls w + 1\<rparr>"

subsection \<open>class AsyncThrottle\<close>

record AsyncThrottleOptions =
  maxOutstanding_opt :: "int option"
  maxQps_opt :: "int option"

definition MAX_SAFE_INTEGER :: int where
  "MAX_SAFE_INTEGER = 9007199254740991"

text \<open>\<open>x || d\<close> on an optional number: \<open>undefined\<close> and \<open>0\<close> are falsy.\<close>

definition or_default :: "int option \<Rightarrow> int \<Rightarrow> int" where
  "or_default x d = (case x of None \<Rightarrow> d | Some n \<Rightarrow> if n = 0 then d else n)"

record state =
  \<comment> \<open>the store of \<open>Work\<close> objects\<close>
  heap :: store
  \<comment> \<open>fields of the throttle\<close>
  readyWorkPredecessor :: ref
  maxOutstanding :: int
  outstandingCount :: int
  maxQps :: int
  qpsCount :: int
  expiringWorkTimer :: "nat option"
  whenQuiescent :: "nat option"
  onLastWorkItemDrained :: "nat option"
  \<comment> \<open>host environment: \<open>Date.now()\<close>, the allocator, pending timeouts (handle, due time),
      resolved \<open>Promise<void>\<close> objects\<close>
  now :: int
  fresh :: nat
  timers :: "(nat \<times> int) list"
  resolved :: "nat list"
  \<comment> \<open>history: work in submission order; invocations of work functions (item, time, number
      of items in flight once it runs); how many of them were unlinked again; items whose
      work function ran and has not completed; what each work function produced; what the
      throttle held each time the drain promise was resolved (queued, in flight, linked)\<close>
  submitted :: "ref list"
  startLog :: "(ref \<times> int \<times> nat) list"
  purged :: nat
  inflight :: "ref list"
  produced :: "ref \<Rightarrow> outcome option"
  drainLog :: "(nat \<times> nat \<times> nat) list"

text \<open>The sentinel \<open>workList\<close> is the first object allocated.\<close>

definition workList :: ref where
  "workList = 0"

definition first :: "state \<Rightarrow> ref" where
  "first s = nxt (heap s workList)"

definition last_work :: "state \<Rightarrow> ref" where
  "last_work s = prev (heap s workList)"

definition expirationDelay :: "state \<Rightarrow> ref \<Rightarrow> int" where
  "expirationDelay s w = max 0 (expirationTime (heap s w) - now s)"

definition isExpired :: "state \<Rightarrow> ref \<Rightarrow> bool" where
  "isExpired s w = (expirationTime (heap s w) \<noteq> 0 \<and> expirationDelay s w \<le> 0)"

definition hasExpiredWork :: "state \<Rightarrow> bool" where
  "hasExpiredWork s = isExpired s (first s)"

definition hasReadyWork :: "state \<Rightarrow> bool" where
  "hasReadyWork s = (nxt (heap s (readyWorkPredecessor s)) \<noteq> workList)"

definition atMaxOutstanding :: "state \<Rightarrow> bool" where
  "atMaxOutstanding s = (outstandingCount s \<ge> maxOutstanding s)"

definition atMaxQps :: "state \<Rightarrow> bool" where
  "atMaxQps s = (qpsCount s \<ge> maxQps s)"

definition canExecuteWork :: "state \<Rightarrow> bool" where
  "canExecuteWork s = (\<not> atMaxQps s \<and> \<not> atMaxOutstanding s)"

text \<open>Ground truth from the history: the items still linked, and those not yet started.\<close>

definition tracked :: "state \<Rightarrow> ref list" where
  "tracked s = drop (purged s) (map fst (startLog s))"

definition queued :: "state \<Rightarrow> ref list" where
  "queued s = drop (length (startLog s)) (submitted s)"

definition new_AsyncThrottle :: "AsyncThrottleOptions \<Rightarrow> state" where
  "new_AsyncThrottle options =
     \<lparr>heap = (\<lambda>r. new_Work ReturnsPromise r),
      readyWorkPredecessor = workList,
      maxOutstanding = or_default (maxOutstanding_opt options) MAX_SAFE_INTEGER,
      outstandingCount = 0,
      maxQps = or_default (maxQps_opt options) MAX_SAFE_INTEGER,
      qpsCount = 0,
      expiringWorkTimer = None,
      whenQuiescent = None,
      onLastWorkItemDrained = None,
      now = 0, fresh = 1, timers = [], resolved = [],
      submitted = [], startLog = [], purged = 0, inflight = [], produced = (\<lambda>_. None),
      drainLog = []\<rparr>"

definition onWorkItemEnqueued :: "state \<Rightarrow> state" where
  "onWorkItemEnqueued s =
     (if whenQuiescent s = None
      then s\<lparr>whenQuiescent := Some (fresh s), onLastWorkItemDrained := Some (fresh s),
             fresh := fresh s + 1\<rparr>
      else s)"

text \<open>
  The closure stored in \<open>onLastWorkItemDrained\<close> resolves the promise it was created with
  and clears both fields.  Calling the field while it is \<open>null\<close> throws.
\<close>

definition call_onLastWorkItemDrained :: "state \<Rightarrow> error + state" where
  "call_onLastWorkItemDrained s =
     (case onLastWorkItemDrained s of
        None \<Rightarrow> Inl TypeError
      | Some p \<Rightarrow>
          Inr (s\<lparr>resolved := p # resolved s, whenQuiescent := None,
                onLastWorkItemDrained := None,
                drainLog := drainLog s @
                  [(length (queued s), length (inflight s), length (tracked s))]\<rparr>))"

text \<open>The host's \<open>setTimeout\<close> and \<open>clearTimeout\<close>.\<close>

definition setTimeout :: "int \<Rightarrow> state \<Rightarrow> nat \<times> state" where
  "setTimeout delay s =
     (fresh s, s\<lparr>timers := timers s @ [(fresh s, now s + delay)], fresh := fresh s + 1\<rparr>)"

definition clearTimeout :: "nat \<Rightarrow> state \<Rightarrow> state" where
  "clearTimeout h s = s\<lparr>timers := filter (\<lambda>(h', due). h' \<noteq> h) (timers s)\<rparr>"

definition updateTimer :: "state \<Rightarrow> state" where
  "updateTimer s =
     (if hasReadyWork s \<and> atMaxQps s \<and> \<not> atMaxOutstanding s then
        (if expiringWorkTimer s = None then
           (let (h, s1) = setTimeout (expirationDelay s (first s)) s
            in s1\<lparr>expiringWorkTimer := Some h\<rparr>)
         else s)
      else
        (case expiringWorkTimer s of
           Some h \<Rightarrow> (clearTimeout h s)\<lparr>expiringWorkTimer := None\<rparr>
         | None \<Rightarrow> s))"

text \<open>One iteration of the loop of \<open>purgeExpiredWork\<close>.\<close>

definition purgeFirst :: "state \<Rightarrow> state" where
  "purgeFirst s =
     (let work = first s;
          s1 = s\<lparr>heap := remove work (heap s), purged := purged s + 1\<rparr>;
          s2 = s1\<lparr>qpsCount := qpsCount s1 - 1\<rparr>
      in if readyWorkPredecessor s2 = work
         then s2\<lparr>readyWorkPredecessor := prev (heap s2 work)\<rparr>
         else s2)"

text \<open>
  The head of an iteration of the loop of \<open>executeReadyWork\<close>, up to the call of
  \<open>work.execute\<close>.
\<close>

definition admit :: "state \<Rightarrow> ref \<times> state" where
  "admit s =
     (let work = nxt (heap s (readyWorkPredecessor s));
          s1 = s\<lparr>readyWorkPredecessor := work\<rparr>;
          s2 = s1\<lparr>outstandingCount := outstandingCount s1 + 1\<rparr>;
          s3 = s2\<lparr>qpsCount := qpsCount s2 + 1\<rparr>
      in (work, s3))"

text \<open>
  The head of \<open>Work.execute\<close>: the expiration time is set and the work function is invoked
  (which the history records).
\<close>

definition begin_execute :: "ref \<Rightarrow> state \<Rightarrow> state" where
  "begin_execute work s =
     s\<lparr>heap := (heap s)(work := (heap s work)\<lparr>expirationTime := now s + 1000\<rparr>),
       startLog := startLog s @ [(work, now s, length (inflight s) + 1)],
       inflight := work # inflight s\<rparr>"

definition settle_work :: "ref \<Rightarrow> outcome \<Rightarrow> state \<Rightarrow> state" where
  "settle_work work out s = s\<lparr>heap := (heap s)(work := settle out (heap s work))\<rparr>"

definition record_produced :: "ref \<Rightarrow> outcome \<Rightarrow> state \<Rightarrow> state" where
  "record_produced work out s = s\<lparr>produced := (produced s)(work := Some out)\<rparr>"

text \<open>
  Settling \<open>whenComplete\<close> of a work item, together with the record of what its work
  function produced.
\<close>

definition deliver :: "ref \<Rightarrow> outcome \<Rightarrow> state \<Rightarrow> state" where
  "deliver work out s = settle_work work out (record_produced work out s)"

text \<open>
  The \<open>cleanup\<close> closure up to its last statement: the counter is decremented (the work
  is no longer in flight), the drain callback is called when this was the last work.
\<close>

definition finished :: "ref \<Rightarrow> state \<Rightarrow> state" where
  "finished work s =
     s\<lparr>outstandingCount := outstandingCount s - 1, inflight := remove1 work (inflight s)\<rparr>"

definition cleanup_head :: "ref \<Rightarrow> state \<Rightarrow> error + state" where
  "cleanup_head work s =
     (let s1 = finished work s
      in if outstandingCount s1 = 0 \<and> \<not> hasReadyWork s1
         then call_onLastWorkItemDrained s1
         else Inr s1)"

subsection \<open>The admission pass\<close>

text \<open>
  \<open>processWork\<close>, the two loops it runs, \<open>Work.execute\<close> and the \<open>cleanup\<close> closure call
  each other: a work function that throws has \<open>cleanup\<close> run inside \<open>execute\<close>, and
  \<open>cleanup\<close> calls \<open>processWork\<close> again.  They are one recursive function over the name of
  the procedure.  A result is the exception the procedure threw, if any, and the state; a
  loop that does not terminate has no result.  Only \<open>cleanup\<close> can throw (when it calls
  \<open>onLastWorkItemDrained\<close> while that is \<open>null\<close>); then \<open>execute\<close> leaves its \<open>catch\<close> block
  before \<open>this.reject(e)\<close>, and its \<open>finally\<close> block returns normally.
\<close>

datatype proc = PurgeExpiredWork | ExecuteReadyWork | Execute ref | Cleanup ref | ProcessWork

partial_function (option) call :: "proc \<Rightarrow> state \<Rightarrow> (error option \<times> state) option" where
  "call p s =
     (case p of
        PurgeExpiredWork \<Rightarrow>
          (if hasExpiredWork s then call PurgeExpiredWork (purgeFirst s)
           else Some (None, s))
      | ExecuteReadyWork \<Rightarrow>
          (if hasReadyWork s \<and> canExecuteWork s then
             (let (work, s1) = admit s
              in Option.bind (call (Execute work) s1) (\<lambda>(x, s2). call ExecuteReadyWork s2))
           else Some (None, s))
      | Execute work \<Rightarrow>
          (let s1 = begin_execute work s
           in case startWork (heap s1 work) of
                ReturnsPromise \<Rightarrow> Some (None, s1)
              | Throws e \<Rightarrow>
                  Option.bind (call (Cleanup work) s1) (\<lambda>(x, s2).
                    Some (None, case x of None \<Rightarrow> deliver work (Rejected e) s2
                                | Some x' \<Rightarrow> record_produced work (Rejected e) s2)))
      | Cleanup work \<Rightarrow>
          (let shouldTriggerWork = atMaxOutstanding s
           in case cleanup_head work s of
                Inl e \<Rightarrow> Some (Some e, finished work s)
              | Inr s1 \<Rightarrow> if shouldTriggerWork then call ProcessWork s1 else Some (None, s1))
      | ProcessWork \<Rightarrow>
          Option.bind (call PurgeExpiredWork s) (\<lambda>(x, s1).
          Option.bind (call ExecuteReadyWork s1) (\<lambda>(y, s2).
          Some (None, updateTimer s2))))"

declare call.simps [code]

definition purgeExpiredWork :: "state \<Rightarrow> state option" where
  "purgeExpiredWork s = map_option snd (call PurgeExpiredWork s)"

definition executeReadyWork :: "state \<Rightarrow> state option" where
  "executeReadyWork s = map_option snd (call ExecuteReadyWork s)"

definition processWork :: "state \<Rightarrow> state option" where
  "processWork s = map_option snd (call ProcessWork s)"

definition cleanup :: "ref \<Rightarrow> state \<Rightarrow> (error option \<times> state) option" where
  "cleanup work s = call (Cleanup work) s"

definition execute :: "ref \<Rightarrow> state \<Rightarrow> state option" where
  "execute work s = map_option snd (call (Execute work) s)"

subsection \<open>Entry points\<close>

text \<open>
  \<open>callThrottled\<close> up to the call of \<open>processWork\<close>: the new work is allocated, linked
  after the last one, and the drain promise is created if there is none.
\<close>

definition enqueue :: "work_fn \<Rightarrow> state \<Rightarrow> state" where
  "enqueue sw s =
     (let work = fresh s;
          s1 = s\<lparr>heap := (heap s)(work := new_Work sw work), fresh := fresh s + 1,
                 submitted := submitted s @ [work]\<rparr>;
          s2 = s1\<lparr>heap := insertAfter work (last_work s1) (heap s1)\<rparr>
      in onWorkItemEnqueued s2)"

text \<open>\<open>callThrottled\<close> returns \<open>work.whenComplete\<close>, here the reference of the work.\<close>

definition callThrottled :: "work_fn \<Rightarrow> state \<Rightarrow> (ref \<times> state) option" where
  "callThrottled sw s = map_option (\<lambda>s'. (fresh s, s')) (processWork (enqueue sw s))"

text \<open>
  \<open>whenDrained\<close> returns the pending drain promise, or a new promise that is already
  resolved.
\<close>

definition whenDrained :: "state \<Rightarrow> nat \<times> state" where
  "whenDrained s =
     (case whenQuiescent s of
        Some p \<Rightarrow> (p, s)
      | None \<Rightarrow> (fresh s, s\<lparr>resolved := fresh s # resolved s, fresh := fresh s + 1\<rparr>))"

text \<open>
  The reactions \<open>.finally(cleanup).then(this.resolve).catch(this.reject)\<close> on the promise
  a work function returned, run when that promise settles with \<open>out\<close>: \<open>finally\<close> passes
  the outcome on unless \<open>cleanup\<close> throws, in which case the chain rejects with what it
  threw.
\<close>

definition on_settled :: "ref \<Rightarrow> outcome \<Rightarrow> state \<Rightarrow> state option" where
  "on_settled work out s =
     Option.bind (cleanup work s) (\<lambda>(x, s1).
       Some (case x of None \<Rightarrow> deliver work out s1
             | Some e \<Rightarrow> settle_work work (Rejected e) (record_produced work out s1)))"

text \<open>The callback given to \<open>setTimeout\<close>; the host has dropped the timeout that fires.\<close>

definition fired :: "nat \<Rightarrow> state \<Rightarrow> state" where
  "fired h s = (clearTimeout h s)\<lparr>expiringWorkTimer := None\<rparr>"

definition on_timeout :: "nat \<Rightarrow> state \<Rightarrow> state option" where
  "on_timeout h s = processWork (fired h s)"

subsection \<open>Runs\<close>

text \<open>
  What can happen to a throttle: a call of \<open>callThrottled\<close>; the promise returned by the
  work function of a started item settles; a pending timeout that is due fires; the clock
  advances.  The host never settles a promise twice and never fires a timeout early, so
  such events leave the state as it is.
\<close>

datatype event =
    CallThrottled work_fn
  | Settled ref outcome
  | Timeout nat
  | Tick nat

definition step :: "event \<Rightarrow> state \<Rightarrow> state option" where
  "step e s =
     (case e of
        CallThrottled sw \<Rightarrow> map_option snd (callThrottled sw s)
      | Settled work out \<Rightarrow>
          if work \<in> set (inflight s) then on_settled work out s else Some s
      | Timeout h \<Rightarrow>
          (case map_of (timers s) h of
             Some due \<Rightarrow> if due \<le> now s then on_timeout h s else Some s
           | None \<Rightarrow> Some s)
      | Tick d \<Rightarrow> Some (s\<lparr>now := now s + int d\<rparr>))"

fun run :: "event list \<Rightarrow> state \<Rightarrow> state option" where
  "run [] s = Some s"
| "run (e # es) s = Option.bind (step e s) (run es)"

subsection \<open>callAllThrottled\<close>

text \<open>
  The promise \<open>callAllThrottled\<close> returns, and the variables its executor closes over.
  \<open>new Array<T>(n)\<close> is an array of \<open>n\<close> holes.
\<close>

datatype all_outcome = AllFulfilled "val option list" | AllRejected error

record aggregate =
  rejected :: bool
  results :: "val option list"
  outstandingResultCount :: int
  promise :: "all_outcome option"

text \<open>The resolution functions of the returned promise: the first call settles it.\<close>

definition settle_all :: "all_outcome \<Rightarrow> aggregate \<Rightarrow> aggregate" where
  "settle_all out a = (case promise a of None \<Rightarrow> a\<lparr>promise := Some out\<rparr> | Some old \<Rightarrow> a)"

text \<open>
  The two reactions attached to the future of item \<open>i\<close> (\<open>i\<close> is below the length of the
  array).
\<close>

definition on_value :: "nat \<Rightarrow> val \<Rightarrow> aggregate \<Rightarrow> aggregate" where
  "on_value i v a =
     (let a1 = a\<lparr>results := (results a)[i := Some v]\<rparr>;
          a2 = a1\<lparr>outstandingResultCount := outstandingResultCount a1 - 1\<rparr>
      in if outstandingResultCount a2 = 0 then settle_all (AllFulfilled (results a2)) a2
         else a2)"

definition on_error :: "error \<Rightarrow> aggregate \<Rightarrow> aggregate" where
  "on_error e a =
     (if \<not> rejected a then settle_all (AllRejected e) (a\<lparr>rejected := True\<rparr>) else a)"

text \<open>
  The state of one call of \<open>callAllThrottled\<close>: the variables above, the throttle it
  constructs, the futures \<open>callThrottled\<close> returned for the items, and which of them have
  had their reaction run.
\<close>

record all_state =
  agg :: aggregate
  throttle :: state
  futures :: "ref list"
  reacted :: "bool list"

fun submit_all :: "work_fn list \<Rightarrow> state \<Rightarrow> (ref list \<times> state) option" where
  "submit_all [] s = Some ([], s)"
| "submit_all (sw # sws) s =
     Option.bind (callThrottled sw s) (\<lambda>(r, s1).
       map_option (\<lambda>(rs, s2). (r # rs, s2)) (submit_all sws s1))"

definition callAllThrottled :: "work_fn list \<Rightarrow> AsyncThrottleOptions \<Rightarrow> all_state option" where
  "callAllThrottled startWorkArray options =
     map_option
       (\<lambda>(rs, s).
          \<lparr>agg = \<lparr>rejected = False, results = replicate (length startWorkArray) None,
                  outstandingResultCount = int (length startWorkArray), promise = None\<rparr>,
           throttle = s, futures = rs,
           reacted = replicate (length startWorkArray) False\<rparr>)
       (submit_all startWorkArray (new_AsyncThrottle options))"

text \<open>
  What can happen afterwards: an event of the throttle (nothing else holds the throttle,
  so there are no further submissions), or the reaction on the future of item \<open>i\<close> runs,
  once, after that future has settled.
\<close>

datatype all_event = Host event | React nat

definition all_step :: "all_event \<Rightarrow> all_state \<Rightarrow> all_state option" where
  "all_step ev a =
     (case ev of
        Host e \<Rightarrow>
          (case e of
             CallThrottled sw \<Rightarrow> Some a
           | Settled work out \<Rightarrow> map_option (\<lambda>s. a\<lparr>throttle := s\<rparr>) (step e (throttle a))
           | Timeout h \<Rightarrow> map_option (\<lambda>s. a\<lparr>throttle := s\<rparr>) (step e (throttle a))
           | Tick d \<Rightarrow> map_option (\<lambda>s. a\<lparr>throttle := s\<rparr>) (step e (throttle a)))
      | React i \<Rightarrow>
          if i < length (futures a) \<and> \<not> reacted a ! i then
            (case whenComplete (heap (throttle a) (futures a ! i)) of
               None \<Rightarrow> Some a
             | Some (Fulfilled v) \<Rightarrow>
                 Some (a\<lparr>agg := on_value i v (agg a), reacted := (reacted a)[i := True]\<rparr>)
             | Some (Rejected e) \<Rightarrow>
                 Some (a\<lparr>agg := on_error e (agg a), reacted := (reacted a)[i := True]\<rparr>))
          else Some a)"

fun all_run :: "all_event list \<Rightarrow> all_state \<Rightarrow> all_state option" where
  "all_run [] a = Some a"
| "all_run (ev # evs) a = Option.bind (all_step ev a) (all_run evs)"

subsection \<open>Invariants\<close>

text \<open>
  \<open>dl h p xs q\<close>: in the store \<open>h\<close>, following \<open>next\<close> from \<open>p\<close> visits \<open>xs\<close> and then \<open>q\<close>,
  and \<open>prev\<close> leads back.  The work list is a ring through the sentinel.
\<close>

fun dl :: "store \<Rightarrow> ref \<Rightarrow> ref list \<Rightarrow> ref \<Rightarrow> bool" where
  "dl h p [] q = (nxt (h p) = q \<and> prev (h q) = p)"
| "dl h p (x # xs) q = (nxt (h p) = x \<and> prev (h x) = p \<and> dl h x xs q)"

definition ring :: "store \<Rightarrow> ref list \<Rightarrow> bool" where
  "ring h xs = (dl h workList xs workList \<and> distinct xs \<and> workList \<notin> set xs)"

definition started :: "state \<Rightarrow> ref list" where
  "started s = map fst (startLog s)"

definition start_time :: "ref \<times> int \<times> nat \<Rightarrow> int" where
  "start_time e = fst (snd e)"

definition in_flight_then :: "ref \<times> int \<times> nat \<Rightarrow> nat" where
  "in_flight_then e = snd (snd e)"

text \<open>The number of work functions invoked in the window of 1000ms that ends at \<open>T\<close>.\<close>

definition started_within :: "state \<Rightarrow> int \<Rightarrow> nat" where
  "started_within s T =
     length (filter (\<lambda>e. T - 1000 < start_time e \<and> start_time e \<le> T) (startLog s))"

definition inv_hist :: "state \<Rightarrow> bool" where
  "inv_hist s =
     (started s = take (length (startLog s)) (submitted s) \<and>
      length (startLog s) \<le> length (submitted s) \<and>
      distinct (submitted s) \<and>
      (\<forall>r \<in> set (submitted s). 0 < r \<and> r < fresh s) \<and>
      purged s \<le> length (startLog s) \<and> 0 < fresh s)"

definition inv_ring :: "state \<Rightarrow> bool" where
  "inv_ring s =
     (ring (heap s) (tracked s @ queued s) \<and>
      readyWorkPredecessor s = last (workList # tracked s))"

definition inv_count :: "state \<Rightarrow> bool" where
  "inv_count s =
     (qpsCount s = int (length (tracked s)) \<and>
      outstandingCount s = int (length (inflight s)) \<and>
      distinct (inflight s) \<and> set (inflight s) \<subseteq> set (started s))"

definition inv_time :: "state \<Rightarrow> bool" where
  "inv_time s =
     ((\<forall>e \<in> set (startLog s).
         expirationTime (heap s (fst e)) = start_time e + 1000 \<and>
         0 \<le> start_time e \<and> start_time e \<le> now s) \<and>
      sorted (map start_time (startLog s)) \<and>
      (\<forall>r \<in> set (queued s). expirationTime (heap s r) = 0) \<and>
      expirationTime (heap s workList) = 0 \<and>
      (\<forall>e \<in> set (take (purged s) (startLog s)). start_time e + 1000 \<le> now s) \<and>
      0 \<le> now s)"

definition inv_limit :: "state \<Rightarrow> bool" where
  "inv_limit s =
     (outstandingCount s \<le> maxOutstanding s \<and> qpsCount s \<le> maxQps s \<and>
      (\<forall>e \<in> set (startLog s). int (in_flight_then e) \<le> maxOutstanding s) \<and>
      (\<forall>T. int (started_within s T) \<le> maxQps s))"

definition inv_drain :: "state \<Rightarrow> bool" where
  "inv_drain s =
     (onLastWorkItemDrained s = whenQuiescent s \<and>
      (whenQuiescent s = None \<longleftrightarrow> inflight s = [] \<and> queued s = []) \<and>
      (\<forall>p. whenQuiescent s = Some p \<longrightarrow> p \<notin> set (resolved s) \<and> p < fresh s) \<and>
      (\<forall>p \<in> set (resolved s). p < fresh s) \<and>
      (\<forall>d \<in> set (drainLog s). fst d = 0 \<and> fst (snd d) = 0))"

definition inv_timer :: "state \<Rightarrow> bool" where
  "inv_timer s =
     (map fst (timers s) = (case expiringWorkTimer s of None \<Rightarrow> [] | Some h \<Rightarrow> [h]) \<and>
      (\<forall>d \<in> set (timers s).
         snd d \<le> now s + 1000 \<and>
         (tracked s \<noteq> [] \<longrightarrow> snd d \<le> expirationTime (heap s (hd (tracked s))))))"

text \<open>
  A pending timeout is due at the end of the window of a started item; as long as it is
  not yet due, that item is the oldest one tracked.
\<close>

definition inv_due :: "state \<Rightarrow> bool" where
  "inv_due s =
     (0 < maxQps s \<longrightarrow>
      (\<forall>d \<in> set (timers s).
         (\<exists>e \<in> set (startLog s). snd d = start_time e + 1000) \<and>
         (now s < snd d \<longrightarrow>
            tracked s \<noteq> [] \<and> snd d = expirationTime (heap s (hd (tracked s))))))"

definition inv_future :: "state \<Rightarrow> bool" where
  "inv_future s =
     ((\<forall>r. whenComplete (heap s r) = produced s r \<and>
           settleCalls (heap s r) = (if produced s r = None then 0 else 1)) \<and>
      (\<forall>r. produced s r \<noteq> None \<longrightarrow> r \<in> set (started s) \<and> r \<notin> set (inflight s)))"

definition invar :: "state \<Rightarrow> bool" where
  "invar s =
     (inv_hist s \<and> inv_ring s \<and> inv_count s \<and> inv_time s \<and> inv_limit s \<and>
      inv_drain s \<and> inv_timer s \<and> inv_future s)"

text \<open>What a procedure of the admission pass leaves alone.\<close>

definition extends :: "state \<Rightarrow> state \<Rightarrow> bool" where
  "extends s s' =
     (submitted s' = submitted s \<and> now s' = now s \<and>
      maxOutstanding s' = maxOutstanding s \<and> maxQps s' = maxQps s \<and>
      length (startLog s) \<le> length (startLog s') \<and>
      take (length (startLog s)) (startLog s') = startLog s \<and>
      (\<forall>r. r \<notin> set (queued s) \<or> startWork (heap s r) = ReturnsPromise \<longrightarrow>
           produced s' r = produced s r) \<and>
      set (inflight s') \<subseteq> set (inflight s) \<union> set (queued s) \<and>
      set (resolved s) \<subseteq> set (resolved s') \<and>
      (\<forall>p. whenQuiescent s = Some p \<longrightarrow> whenQuiescent s' = Some p \<or> p \<in> set (resolved s')) \<and>
      (\<forall>r. startWork (heap s' r) = startWork (heap s r)))"

text \<open>Relations between the states before and after a loop iteration or a closure.\<close>

definition purge_rel :: "state \<Rightarrow> state \<Rightarrow> bool" where
  "purge_rel s s' =
     (startLog s' = startLog s \<and> submitted s' = submitted s \<and> inflight s' = inflight s \<and>
      produced s' = produced s \<and> drainLog s' = drainLog s \<and> now s' = now s \<and>
      fresh s' = fresh s \<and> timers s' = timers s \<and> resolved s' = resolved s \<and>
      maxOutstanding s' = maxOutstanding s \<and> maxQps s' = maxQps s \<and>
      outstandingCount s' = outstandingCount s \<and>
      expiringWorkTimer s' = expiringWorkTimer s \<and> whenQuiescent s' = whenQuiescent s \<and>
      onLastWorkItemDrained s' = onLastWorkItemDrained s \<and>
      (\<forall>r. whenComplete (heap s' r) = whenComplete (heap s r) \<and>
           settleCalls (heap s' r) = settleCalls (heap s r) \<and>
           startWork (heap s' r) = startWork (heap s r) \<and>
           expirationTime (heap s' r) = expirationTime (heap s r)))"

definition cleanup_rel :: "ref \<Rightarrow> state \<Rightarrow> state \<Rightarrow> bool" where
  "cleanup_rel w s s' =
     (heap s' = heap s \<and> readyWorkPredecessor s' = readyWorkPredecessor s \<and>
      startLog s' = startLog s \<and> submitted s' = submitted s \<and> purged s' = purged s \<and>
      inflight s' = remove1 w (inflight s) \<and>
      outstandingCount s' = outstandingCount s - 1 \<and> qpsCount s' = qpsCount s \<and>
      produced s' = produced s \<and> now s' = now s \<and>
      fresh s' = fresh s \<and> timers s' = timers s \<and>
      maxOutstanding s' = maxOutstanding s \<and> maxQps s' = maxQps s \<and>
      expiringWorkTimer s' = expiringWorkTimer s \<and>
      set (resolved s) \<subseteq> set (resolved s') \<and>
      (\<forall>p. whenQuiescent s = Some p \<longrightarrow> whenQuiescent s' = Some p \<or> p \<in> set (resolved s')))"

text \<open>One work item is started: the head of a loop iteration and of \<open>execute\<close>.\<close>

definition start :: "state \<Rightarrow> state" where
  "start s = begin_execute (fst (admit s)) (snd (admit s))"

text \<open>The timer is armed exactly when work waits for the QPS limit alone.\<close>

definition timer_ok :: "state \<Rightarrow> bool" where
  "timer_ok s =
     (expiringWorkTimer s \<noteq> None \<longleftrightarrow> hasReadyWork s \<and> atMaxQps s \<and> \<not> atMaxOutstanding s)"

text \<open>No work can be started.\<close>

definition saturated :: "state \<Rightarrow> bool" where
  "saturated s = (\<not> (hasReadyWork s \<and> canExecuteWork s))"

text \<open>
  What each procedure needs and what it guarantees; the measure \<open>rank\<close> orders the
  procedures that call each other on the same queue.
\<close>

fun rank :: "proc \<Rightarrow> nat" where
  "rank (Execute w) = 0"
| "rank ExecuteReadyWork = 1"
| "rank ProcessWork = 2"
| "rank (Cleanup w) = 3"
| "rank PurgeExpiredWork = 0"

fun pre :: "proc \<Rightarrow> state \<Rightarrow> bool" where
  "pre (Execute w) s =
     (invar (begin_execute w s) \<and> w \<in> set (queued s) \<and>
      length (queued (begin_execute w s)) < length (queued s) \<and>
      submitted (begin_execute w s) = submitted s \<and>
      (\<not> hasExpiredWork s \<longrightarrow> \<not> hasExpiredWork (begin_execute w s)) \<and>
      (inv_due s \<longrightarrow> inv_due (begin_execute w s)))"
| "pre (Cleanup w) s = (invar s \<and> w \<in> set (inflight s))"
| "pre p s = invar s"

text \<open>
  Outside the set \<open>W\<close> of items whose \<open>execute\<close> or completion reaction is still running:
  the work function of an item in flight has returned a promise; every started item that
  is no longer in flight has produced its outcome, and a work function that throws
  produces the rejection with what it threw.
\<close>

definition settled_except :: "ref set \<Rightarrow> state \<Rightarrow> bool" where
  "settled_except W s =
     (\<forall>r \<in> set (started s) - W.
        (r \<in> set (inflight s) \<longrightarrow> startWork (heap s r) = ReturnsPromise) \<and>
        (r \<notin> set (inflight s) \<longrightarrow>
           produced s r \<noteq> None \<and>
           (\<forall>e. startWork (heap s r) = Throws e \<longrightarrow> produced s r = Some (Rejected e))))"

fun exempt :: "proc \<Rightarrow> ref set" where
  "exempt (Cleanup w) = {w}"
| "exempt p = {}"

fun post :: "proc \<Rightarrow> state \<Rightarrow> state \<Rightarrow> bool" where
  "post (Execute w) s s' =
     (length (startLog s) < length (startLog s') \<and>
      (startWork (heap (begin_execute w s) w) = ReturnsPromise \<longrightarrow> s' = begin_execute w s) \<and>
      (\<forall>e. startWork (heap (begin_execute w s) w) = Throws e \<longrightarrow>
           produced s' w = Some (Rejected e) \<and> w \<notin> set (inflight s') \<and>
           (atMaxOutstanding (begin_execute w s) \<longrightarrow> saturated s' \<and> timer_ok s') \<and>
           (inflight s = [] \<and> queued s = [w] \<longrightarrow>
              (\<exists>p. whenQuiescent s = Some p \<and> p \<in> set (resolved s')))))"
| "post (Cleanup w) s s' =
     (set (inflight s') \<subseteq> set (remove1 w (inflight s)) \<union> set (queued s) \<and>
      (timer_ok s \<longrightarrow> timer_ok s') \<and> (saturated s \<longrightarrow> saturated s') \<and>
      (atMaxOutstanding s \<longrightarrow> saturated s' \<and> timer_ok s') \<and>
      (remove1 w (inflight s) = [] \<and> queued s = [] \<longrightarrow>
         (\<exists>p. whenQuiescent s = Some p \<and> p \<in> set (resolved s'))))"
| "post ExecuteReadyWork s s' = saturated s'"
| "post ProcessWork s s' =
     (saturated s' \<and> timer_ok s' \<and> \<not> hasExpiredWork s' \<and>
      (\<exists>s2. s' = updateTimer s2 \<and> invar s2 \<and> \<not> hasExpiredWork s2 \<and> extends s s2))"
| "post PurgeExpiredWork s s' = (purge_rel s s' \<and> \<not> hasExpiredWork s')"

definition good :: "proc \<Rightarrow> state \<Rightarrow> state \<Rightarrow> bool" where
  "good p s s' =
     (invar s' \<and> extends s s' \<and> (\<not> hasExpiredWork s \<longrightarrow> \<not> hasExpiredWork s') \<and>
      (inv_due s \<longrightarrow> inv_due s') \<and>
      (\<forall>W. settled_except W s \<longrightarrow> settled_except (W \<union> exempt p) s') \<and> post p s s')"

text \<open>
  The options the interface allows: a limit that is given is not negative (and \<open>0\<close> stands
  for no limit).
\<close>

definition valid_options :: "AsyncThrottleOptions \<Rightarrow> bool" where
  "valid_options options =
     ((case maxOutstanding_opt options of None \<Rightarrow> True | Some n \<Rightarrow> 0 \<le> n) \<and>
      (case maxQps_opt options of None \<Rightarrow> True | Some n \<Rightarrow> 0 \<le> n))"

text \<open>What holds between two events of a throttle constructed with \<open>options\<close>.\<close>

definition at_rest :: "AsyncThrottleOptions \<Rightarrow> state \<Rightarrow> bool" where
  "at_rest options s =
     (invar s \<and> inv_due s \<and> timer_ok s \<and> saturated s \<and> settled_except {} s \<and>
      maxOutstanding s = or_default (maxOutstanding_opt options) MAX_SAFE_INTEGER \<and>
      maxQps s = or_default (maxQps_opt options) MAX_SAFE_INTEGER)"

text \<open>
  What the work function of item \<open>r\<close> produces if the host settles the promise it returns
  with \<open>f r\<close>; and what a continuation without further submissions, in which the host does
  so, keeps: the futures that are settled, and the drain promise until it is resolved.
\<close>

definition outcome_of :: "(ref \<Rightarrow> outcome) \<Rightarrow> state \<Rightarrow> ref \<Rightarrow> outcome" where
  "outcome_of f s r =
     (case startWork (heap s r) of Throws e \<Rightarrow> Rejected e | ReturnsPromise \<Rightarrow> f r)"

definition follows :: "(ref \<Rightarrow> outcome) \<Rightarrow> state \<Rightarrow> state \<Rightarrow> bool" where
  "follows f s s' =
     (submitted s' = submitted s \<and>
      (\<forall>r. startWork (heap s' r) = startWork (heap s r)) \<and>
      (\<forall>r out. produced s r = Some out \<longrightarrow> produced s' r = Some out) \<and>
      (\<forall>r. produced s r = None \<longrightarrow>
           produced s' r = None \<or> produced s' r = Some (outcome_of f s r)) \<and>
      (\<forall>p. whenQuiescent s = Some p \<longrightarrow> whenQuiescent s' = Some p \<or> p \<in> set (resolved s')) \<and>
      set (resolved s) \<subseteq> set (resolved s'))"

definition host_settles :: "(ref \<Rightarrow> outcome) \<Rightarrow> event \<Rightarrow> bool" where
  "host_settles f e =
     (case e of CallThrottled sw \<Rightarrow> False | Settled r out \<Rightarrow> out = f r
      | Timeout h \<Rightarrow> True | Tick d \<Rightarrow> True)"


section \<open>Proofs\<close>

subsection \<open>The ring\<close>

lemma dl_frame:
  "dl h p xs q \<Longrightarrow> (\<forall>r \<in> set (p # xs). nxt (h' r) = nxt (h r)) \<Longrightarrow>
   (\<forall>r \<in> set (xs @ [q]). prev (h' r) = prev (h r)) \<Longrightarrow> dl h' p xs q"
  by (induction xs arbitrary: p) auto

lemma dl_first: "dl h p xs q \<Longrightarrow> nxt (h p) = hd (xs @ [q])"
  by (cases xs) auto

lemma dl_last: "dl h p xs q \<Longrightarrow> prev (h q) = last (p # xs)"
  by (induction xs arbitrary: p) auto

lemma dl_next: "dl h p (xs @ ys) q \<Longrightarrow> nxt (h (last (p # xs))) = hd (ys @ [q])"
proof (induction xs arbitrary: p)
  case Nil
  then show ?case by (simp add: dl_first)
next
  case (Cons x xs)
  then show ?case by simp
qed

lemma dl_snoc:
  assumes "dl h p xs q" and "distinct (p # xs)" and "q \<notin> set xs"
    and "new \<notin> set (p # xs)" and "new \<noteq> q"
    and "nxt (h' (last (p # xs))) = new" and "prev (h' new) = last (p # xs)"
    and "nxt (h' new) = q" and "prev (h' q) = new"
    and "\<forall>r. r \<noteq> last (p # xs) \<longrightarrow> r \<noteq> new \<longrightarrow> nxt (h' r) = nxt (h r)"
    and "\<forall>r. r \<noteq> new \<longrightarrow> r \<noteq> q \<longrightarrow> prev (h' r) = prev (h r)"
  shows "dl h' p (xs @ [new]) q"
  using assms
proof (induction xs arbitrary: p)
  case Nil
  then show ?case by simp
next
  case (Cons x xs)
  have "dl h' x (xs @ [new]) q"
    using Cons.prems by (intro Cons.IH) auto
  moreover have "nxt (h' p) = x"
    using Cons.prems by (metis distinct.simps(2) dl.simps(2) last_in_set list.distinct(1) list.set_intros(1) last_ConsR)
  moreover have "prev (h' x) = p"
    using Cons.prems by auto
  ultimately show ?case by simp
qed

lemma dl_tail:
  assumes "dl h p (x # xs) q" and "distinct (p # x # xs)" and "q \<notin> set (x # xs)"
    and "nxt (h' p) = nxt (h x)" and "prev (h' (nxt (h x))) = p"
    and "\<forall>r. r \<noteq> p \<longrightarrow> nxt (h' r) = nxt (h r)"
    and "\<forall>r. r \<noteq> nxt (h x) \<longrightarrow> prev (h' r) = prev (h r)"
  shows "dl h' p xs q"
proof (cases xs)
  case Nil
  then show ?thesis using assms by auto
next
  case (Cons y ys)
  then have y: "nxt (h x) = y" and d: "dl h y ys q" using assms(1) by auto
  have py: "p \<notin> set (y # ys)" and yq: "y \<notin> set (ys @ [q])"
    using assms(2,3) Cons by auto
  have "\<forall>r \<in> set (y # ys). nxt (h' r) = nxt (h r)"
    using assms(6) py by metis
  moreover have "\<forall>r \<in> set (ys @ [q]). prev (h' r) = prev (h r)"
    using assms(7) yq y by metis
  ultimately have "dl h' y ys q"
    by (rule dl_frame[OF d])
  then show ?thesis using assms(4,5) y Cons by simp
qed

lemma ring_insertAfter:
  assumes "ring h xs" and "new \<notin> set xs" and "new \<noteq> workList"
  shows "ring (insertAfter new (prev (h workList)) h) (xs @ [new])"
proof -
  let ?w = "last (workList # xs)"
  have d: "dl h workList xs workList" and dist: "distinct (workList # xs)"
    using assms(1) by (auto simp: ring_def)
  have w: "prev (h workList) = ?w" using dl_last[OF d] .
  have nw: "nxt (h ?w) = workList" using dl_next[of h workList xs "[]" workList] d by simp
  have wn: "?w \<noteq> new" using assms(2,3) by (metis last_in_set list.distinct(1) set_ConsD)
  let ?h = "insertAfter new ?w h"
  have 1: "nxt (?h ?w) = new" using wn nw assms(3) by (auto simp: insertAfter_def Let_def)
  have 2: "prev (?h new) = ?w" using wn nw assms(3) by (auto simp: insertAfter_def Let_def)
  have 3: "nxt (?h new) = workList" using wn nw assms(3) by (auto simp: insertAfter_def Let_def)
  have 4: "prev (?h workList) = new" using wn nw assms(3) by (auto simp: insertAfter_def Let_def)
  have 5: "\<forall>r. r \<noteq> ?w \<longrightarrow> r \<noteq> new \<longrightarrow> nxt (?h r) = nxt (h r)"
    using wn nw assms(3) by (auto simp: insertAfter_def Let_def)
  have 6: "\<forall>r. r \<noteq> new \<longrightarrow> r \<noteq> workList \<longrightarrow> prev (?h r) = prev (h r)"
    using wn nw assms(3) by (auto simp: insertAfter_def Let_def)
  have "dl ?h workList (xs @ [new]) workList"
    using d dist assms 1 2 3 4 5 6 by (intro dl_snoc[where h = h]) (auto simp: ring_def)
  then show ?thesis using assms w by (auto simp: ring_def)
qed

lemma ring_remove:
  assumes "ring h (x # xs)"
  shows "ring (remove x h) xs" and "prev (remove x h x) = workList"
proof -
  have d: "dl h workList (x # xs) workList" and dist: "distinct (workList # x # xs)"
    using assms(1) by (auto simp: ring_def)
  have px: "prev (h x) = workList" using d by simp
  have x0: "x \<noteq> workList" using dist by auto
  let ?h = "remove x h"
  let ?y = "nxt (h x)"
  have yx: "?y \<noteq> x" using d dist by (cases xs) auto
  have 1: "nxt (?h workList) = ?y" using px x0 yx by (auto simp: remove_def Let_def)
  have 2: "prev (?h ?y) = workList" using px x0 yx by (auto simp: remove_def Let_def)
  have 3: "\<forall>r. r \<noteq> workList \<longrightarrow> nxt (?h r) = nxt (h r)"
    using px x0 yx by (auto simp: remove_def Let_def)
  have 4: "\<forall>r. r \<noteq> ?y \<longrightarrow> prev (?h r) = prev (h r)"
    using px x0 yx by (auto simp: remove_def Let_def)
  have "dl ?h workList xs workList"
    using dist 1 2 3 4 assms by (intro dl_tail[OF d]) (auto simp: ring_def)
  then show "ring ?h xs" using assms by (auto simp: ring_def)
  show "prev (?h x) = workList" using 4 yx px by simp
qed


lemma remove_fields [simp]:
  "expirationTime (remove x h r) = expirationTime (h r)"
  "whenComplete (remove x h r) = whenComplete (h r)"
  "settleCalls (remove x h r) = settleCalls (h r)"
  "startWork (remove x h r) = startWork (h r)"
  by (auto simp: remove_def Let_def)

lemma insertAfter_fields [simp]:
  "expirationTime (insertAfter x w h r) = expirationTime (h r)"
  "whenComplete (insertAfter x w h r) = whenComplete (h r)"
  "settleCalls (insertAfter x w h r) = settleCalls (h r)"
  "startWork (insertAfter x w h r) = startWork (h r)"
  by (auto simp: insertAfter_def Let_def)

lemma ring_frame:
  "ring h xs \<Longrightarrow> (\<forall>r. nxt (h' r) = nxt (h r) \<and> prev (h' r) = prev (h r)) \<Longrightarrow> ring h' xs"
  unfolding ring_def using dl_frame[of h workList xs workList h'] by simp

subsection \<open>Consequences of the invariants\<close>

lemma tracked_subset: "set (tracked s) \<subseteq> set (started s)"
  unfolding tracked_def started_def by (rule set_drop_subset)

lemma hist_split: "inv_hist s \<Longrightarrow> submitted s = started s @ queued s"
  by (simp add: inv_hist_def queued_def)

lemma hist_distinct:
  assumes "inv_hist s"
  shows "distinct (tracked s @ queued s)" and "workList \<notin> set (tracked s @ queued s)"
    and "distinct (started s @ queued s)" and "set (started s) \<inter> set (queued s) = {}"
    and "\<forall>r \<in> set (started s @ queued s). 0 < r \<and> r < fresh s"
proof -
  have sp: "submitted s = started s @ queued s" using assms by (rule hist_split)
  have d: "distinct (started s @ queued s)" using assms sp by (simp add: inv_hist_def)
  then show "distinct (started s @ queued s)" .
  show "set (started s) \<inter> set (queued s) = {}" using d by auto
  have "distinct (tracked s)" using d by (simp add: tracked_def started_def)
  then show "distinct (tracked s @ queued s)" using d tracked_subset[of s] by auto
  show b: "\<forall>r \<in> set (started s @ queued s). 0 < r \<and> r < fresh s"
    using assms sp by (simp add: inv_hist_def)
  then show "workList \<notin> set (tracked s @ queued s)"
    using tracked_subset[of s] by (auto simp: workList_def)
qed

lemma next_ready:
  assumes "inv_ring s"
  shows "nxt (heap s (readyWorkPredecessor s)) = hd (queued s @ [workList])"
  using assms dl_next[of "heap s" workList "tracked s" "queued s" workList]
  by (simp add: inv_ring_def ring_def)

lemma hasReadyWork_iff:
  assumes "inv_hist s" and "inv_ring s"
  shows "hasReadyWork s \<longleftrightarrow> queued s \<noteq> []"
proof (cases "queued s")
  case Nil
  then show ?thesis using next_ready[OF assms(2)] by (simp add: hasReadyWork_def)
next
  case (Cons x xs)
  then have "x \<noteq> workList" using hist_distinct(2)[OF assms(1)] by auto
  then show ?thesis using next_ready[OF assms(2)] Cons by (simp add: hasReadyWork_def)
qed

lemma first_eq:
  assumes "inv_ring s"
  shows "first s = hd (tracked s @ queued s @ [workList])"
  using assms dl_first[of "heap s" workList "tracked s @ queued s" workList]
  by (simp add: inv_ring_def ring_def first_def)

lemma last_work_eq:
  assumes "inv_ring s"
  shows "last_work s = last (workList # tracked s @ queued s)"
  using assms dl_last[of "heap s" workList "tracked s @ queued s" workList]
  by (simp add: inv_ring_def ring_def last_work_def)

lemma tracked_nth:
  assumes "tracked s \<noteq> []"
  shows "purged s < length (startLog s)" and "hd (tracked s) = fst (startLog s ! purged s)"
    and "tracked s = fst (startLog s ! purged s) # drop (Suc (purged s)) (started s)"
proof -
  show p: "purged s < length (startLog s)" using assms by (simp add: tracked_def)
  then show "hd (tracked s) = fst (startLog s ! purged s)"
    by (simp add: tracked_def hd_drop_conv_nth)
  show "tracked s = fst (startLog s ! purged s) # drop (Suc (purged s)) (started s)"
    using p by (simp add: tracked_def started_def Cons_nth_drop_Suc[symmetric])
qed

lemma expiration_started:
  "inv_time s \<Longrightarrow> e \<in> set (startLog s) \<Longrightarrow>
   expirationTime (heap s (fst e)) = start_time e + 1000 \<and> 0 \<le> start_time e \<and> start_time e \<le> now s"
  by (simp add: inv_time_def)

lemma hasExpiredWork_iff:
  assumes "inv_hist s" and "inv_ring s" and "inv_time s"
  shows "hasExpiredWork s \<longleftrightarrow>
           tracked s \<noteq> [] \<and> start_time (startLog s ! purged s) + 1000 \<le> now s"
proof (cases "tracked s")
  case Nil
  then have "first s \<in> set (queued s) \<or> first s = workList"
    using first_eq[OF assms(2)] by (cases "queued s") auto
  then have "expirationTime (heap s (first s)) = 0"
    using assms(3) by (auto simp: inv_time_def)
  then show ?thesis using Nil by (simp add: hasExpiredWork_def isExpired_def)
next
  case (Cons x xs)
  then have ne: "tracked s \<noteq> []" by simp
  have f: "first s = fst (startLog s ! purged s)"
    using first_eq[OF assms(2)] tracked_nth(2)[OF ne] Cons by simp
  have "startLog s ! purged s \<in> set (startLog s)" using tracked_nth(1)[OF ne] by simp
  from expiration_started[OF assms(3) this] f
  show ?thesis using ne
    by (auto simp: hasExpiredWork_def isExpired_def expirationDelay_def)
qed

lemma tracked_oldest:
  assumes "inv_time s" and "r \<in> set (tracked s)"
  shows "expirationTime (heap s (hd (tracked s))) \<le> expirationTime (heap s r)"
proof -
  let ?p = "purged s"
  have ne: "tracked s \<noteq> []" using assms(2) by auto
  note tn = tracked_nth[OF ne]
  from assms(2) obtain i where i: "i < length (tracked s)" "r = tracked s ! i"
    by (metis in_set_conv_nth)
  then have il: "?p + i < length (startLog s)" by (simp add: tracked_def)
  then have ri: "r = fst (startLog s ! (?p + i))" using i by (simp add: tracked_def)
  have "sorted (map start_time (startLog s))" using assms(1) by (simp add: inv_time_def)
  then have "map start_time (startLog s) ! ?p \<le> map start_time (startLog s) ! (?p + i)"
    using il by (intro sorted_nth_mono) auto
  then have le: "start_time (startLog s ! ?p) \<le> start_time (startLog s ! (?p + i))"
    using il tn(1) by simp
  have "startLog s ! ?p \<in> set (startLog s)" "startLog s ! (?p + i) \<in> set (startLog s)"
    using tn(1) il by simp_all
  from expiration_started[OF assms(1) this(1)] expiration_started[OF assms(1) this(2)]
  show ?thesis using le tn(2) ri by simp
qed

subsection \<open>Purging\<close>

lemma purgeFirst_fields [simp]:
  "heap (purgeFirst s) = remove (first s) (heap s)"
  "purged (purgeFirst s) = purged s + 1"
  "qpsCount (purgeFirst s) = qpsCount s - 1"
  "startLog (purgeFirst s) = startLog s"
  "submitted (purgeFirst s) = submitted s"
  "inflight (purgeFirst s) = inflight s"
  "produced (purgeFirst s) = produced s"
  "drainLog (purgeFirst s) = drainLog s"
  "now (purgeFirst s) = now s"
  "fresh (purgeFirst s) = fresh s"
  "timers (purgeFirst s) = timers s"
  "resolved (purgeFirst s) = resolved s"
  "maxOutstanding (purgeFirst s) = maxOutstanding s"
  "maxQps (purgeFirst s) = maxQps s"
  "outstandingCount (purgeFirst s) = outstandingCount s"
  "expiringWorkTimer (purgeFirst s) = expiringWorkTimer s"
  "whenQuiescent (purgeFirst s) = whenQuiescent s"
  "onLastWorkItemDrained (purgeFirst s) = onLastWorkItemDrained s"
  by (simp_all add: purgeFirst_def Let_def)

lemma purgeFirst_lists [simp]:
  "queued (purgeFirst s) = queued s"
  "started (purgeFirst s) = started s"
  "tracked (purgeFirst s) = tl (tracked s)"
  by (simp_all add: queued_def started_def tracked_def drop_Suc tl_drop)

lemma purgeFirst_rwp:
  "readyWorkPredecessor (purgeFirst s) =
     (if readyWorkPredecessor s = first s then prev (remove (first s) (heap s) (first s))
      else readyWorkPredecessor s)"
  by (simp add: purgeFirst_def Let_def)

lemma purgeFirst_inv:
  assumes "invar s" and "hasExpiredWork s"
  shows "invar (purgeFirst s)" and "length (tracked (purgeFirst s)) < length (tracked s)"
proof -
  let ?s = "purgeFirst s"
  have ih: "inv_hist s" and ir: "inv_ring s" and ic: "inv_count s" and it: "inv_time s"
    and il: "inv_limit s" and idr: "inv_drain s" and iti: "inv_timer s" and ifu: "inv_future s"
    using assms(1) by (simp_all add: invar_def)
  from hasExpiredWork_iff[OF ih ir it] assms(2)
  have ne: "tracked s \<noteq> []" and ex: "start_time (startLog s ! purged s) + 1000 \<le> now s"
    by simp_all
  then obtain x rest where tr: "tracked s = x # rest" by (cases "tracked s") auto
  have fx: "first s = x" using first_eq[OF ir] tr by simp
  have pl: "purged s < length (startLog s)" using tracked_nth(1)[OF ne] .
  show "length (tracked ?s) < length (tracked s)" using tr by simp
  have rg: "ring (heap s) (x # rest @ queued s)" using ir tr by (simp add: inv_ring_def)
  have dx: "x \<notin> set rest" using hist_distinct(1)[OF ih] tr by simp
  have 1: "inv_hist ?s"
    using ih pl by (simp add: inv_hist_def)
  have 2: "inv_ring ?s"
  proof -
    have "readyWorkPredecessor ?s = last (workList # rest)"
    proof (cases rest)
      case Nil
      then show ?thesis using ir tr fx ring_remove(2)[OF rg]
        by (simp add: purgeFirst_rwp inv_ring_def)
    next
      case (Cons y ys)
      then have "last (workList # x # rest) \<noteq> x" using dx by (metis last_ConsR last_in_set list.distinct(1))
      then show ?thesis using ir tr fx Cons
        by (simp add: purgeFirst_rwp inv_ring_def)
    qed
    then show ?thesis using ring_remove(1)[OF rg] tr fx by (simp add: inv_ring_def)
  qed
  have 3: "inv_count ?s"
    using ic tr by (simp add: inv_count_def)
  have 4: "inv_time ?s"
    using it ex pl by (auto simp: inv_time_def take_Suc_conv_app_nth)
  have 5: "inv_limit ?s"
    using il by (simp add: inv_limit_def started_within_def)
  have 6: "inv_drain ?s"
    using idr by (simp add: inv_drain_def)
  have 7: "inv_timer ?s"
  proof -
    have "expirationTime (heap s x) \<le> expirationTime (heap s (hd rest))" if "rest \<noteq> []"
      using tracked_oldest[OF it, of "hd rest"] tr that by simp
    moreover have "expirationTime (heap s x) \<le> now s"
    proof -
      have "startLog s ! purged s \<in> set (startLog s)" using pl by simp
      from expiration_started[OF it this] tracked_nth(2)[OF ne] tr ex
      show ?thesis by simp
    qed
    moreover have "\<forall>d \<in> set (timers s). snd d \<le> expirationTime (heap s x)"
      using iti tr by (simp add: inv_timer_def)
    ultimately show ?thesis using iti tr by (fastforce simp: inv_timer_def)
  qed
  have 8: "inv_future ?s"
    using ifu by (simp add: inv_future_def)
  show "invar ?s" using 1 2 3 4 5 6 7 8 by (simp add: invar_def)
qed

lemma purgeFirst_extends: "extends s (purgeFirst s)"
  by (simp add: extends_def)

lemma purgeFirst_due:
  assumes "invar s" and "hasExpiredWork s" and "inv_due s"
  shows "inv_due (purgeFirst s)"
proof -
  have ih: "inv_hist s" and ir: "inv_ring s" and it: "inv_time s" and iti: "inv_timer s"
    using assms(1) by (simp_all add: invar_def)
  from hasExpiredWork_iff[OF ih ir it] assms(2)
  have ne: "tracked s \<noteq> []" and ex: "start_time (startLog s ! purged s) + 1000 \<le> now s"
    by simp_all
  have "startLog s ! purged s \<in> set (startLog s)" using tracked_nth(1)[OF ne] by simp
  from expiration_started[OF it this] tracked_nth(2)[OF ne] ex
  have "expirationTime (heap s (hd (tracked s))) \<le> now s" by simp
  moreover have "\<forall>d \<in> set (timers s). snd d \<le> expirationTime (heap s (hd (tracked s)))"
    using iti ne by (simp add: inv_timer_def)
  ultimately have "\<forall>d \<in> set (timers s). \<not> now s < snd d" by fastforce
  then show ?thesis using assms(3) by (simp add: inv_due_def)
qed

lemma call_PurgeExpiredWork:
  "call PurgeExpiredWork s =
     (if hasExpiredWork s then call PurgeExpiredWork (purgeFirst s) else Some (None, s))"
  by (subst call.simps) simp

lemma purge_rel_refl: "purge_rel s s"
  by (simp add: purge_rel_def)

lemma purge_rel_purgeFirst: "purge_rel s (purgeFirst s)"
  by (simp add: purge_rel_def)

lemma purge_rel_trans: "purge_rel s s' \<Longrightarrow> purge_rel s' s'' \<Longrightarrow> purge_rel s s''"
  by (simp add: purge_rel_def)

lemma purge_ok:
  assumes "invar s"
  shows "\<exists>s'. call PurgeExpiredWork s = Some (None, s') \<and> invar s' \<and> purge_rel s s' \<and>
              \<not> hasExpiredWork s' \<and> (inv_due s \<longrightarrow> inv_due s')"
  using assms
proof (induction "length (tracked s)" arbitrary: s rule: less_induct)
  case less
  show ?case
  proof (cases "hasExpiredWork s")
    case False
    then show ?thesis using less.prems
      by (simp add: call_PurgeExpiredWork purge_rel_refl)
  next
    case True
    from purgeFirst_inv[OF less.prems True]
    have i: "invar (purgeFirst s)" and l: "length (tracked (purgeFirst s)) < length (tracked s)"
      by simp_all
    from less.hyps[OF l i] obtain s' where
      "call PurgeExpiredWork (purgeFirst s) = Some (None, s')" "invar s'"
      "purge_rel (purgeFirst s) s'" "\<not> hasExpiredWork s'"
      "inv_due (purgeFirst s) \<longrightarrow> inv_due s'" by blast
    then show ?thesis
      using True purge_rel_trans[OF purge_rel_purgeFirst] purgeFirst_due[OF less.prems True]
      by (subst call_PurgeExpiredWork) auto
  qed
qed

subsection \<open>Starting a work item\<close>

lemma admit_fst: "fst (admit s) = nxt (heap s (readyWorkPredecessor s))"
  by (simp add: admit_def Let_def)

lemma admit_snd:
  "snd (admit s) =
     s\<lparr>readyWorkPredecessor := nxt (heap s (readyWorkPredecessor s)),
       outstandingCount := outstandingCount s + 1, qpsCount := qpsCount s + 1\<rparr>"
  by (simp add: admit_def Let_def)

lemma start_fields [simp]:
  "heap (start s) = (heap s)(fst (admit s) :=
      (heap s (fst (admit s)))\<lparr>expirationTime := now s + 1000\<rparr>)"
  "readyWorkPredecessor (start s) = fst (admit s)"
  "purged (start s) = purged s"
  "qpsCount (start s) = qpsCount s + 1"
  "outstandingCount (start s) = outstandingCount s + 1"
  "startLog (start s) = startLog s @ [(fst (admit s), now s, length (inflight s) + 1)]"
  "submitted (start s) = submitted s"
  "inflight (start s) = fst (admit s) # inflight s"
  "produced (start s) = produced s"
  "drainLog (start s) = drainLog s"
  "now (start s) = now s"
  "fresh (start s) = fresh s"
  "timers (start s) = timers s"
  "resolved (start s) = resolved s"
  "maxOutstanding (start s) = maxOutstanding s"
  "maxQps (start s) = maxQps s"
  "expiringWorkTimer (start s) = expiringWorkTimer s"
  "whenQuiescent (start s) = whenQuiescent s"
  "onLastWorkItemDrained (start s) = onLastWorkItemDrained s"
  by (simp_all add: start_def begin_execute_def admit_snd admit_fst)

lemma window_now:
  assumes "inv_time s" and "now s \<le> T"
  shows "started_within s T \<le> length (drop (purged s) (startLog s))"
proof -
  let ?P = "\<lambda>e. T - 1000 < start_time e \<and> start_time e \<le> T"
  have "filter ?P (take (purged s) (startLog s)) = []"
    using assms by (auto simp: inv_time_def filter_empty_conv)
  moreover have "filter ?P (startLog s) =
      filter ?P (take (purged s) (startLog s)) @ filter ?P (drop (purged s) (startLog s))"
    by (simp flip: filter_append)
  ultimately have "filter ?P (startLog s) = filter ?P (drop (purged s) (startLog s))"
    by simp
  then have "started_within s T = length (filter ?P (drop (purged s) (startLog s)))"
    by (simp add: started_within_def)
  also have "\<dots> \<le> length (drop (purged s) (startLog s))"
    by (rule length_filter_le)
  finally show ?thesis .
qed

lemma start_inv:
  assumes "invar s" and "hasReadyWork s" and "canExecuteWork s"
  shows "invar (start s)" and "fst (admit s) = hd (queued s)"
    and "queued (start s) = tl (queued s)" and "queued s \<noteq> []"
    and "tracked (start s) = tracked s @ [hd (queued s)]"
proof -
  let ?s = "start s"
  have ih: "inv_hist s" and ir: "inv_ring s" and ic: "inv_count s" and it: "inv_time s"
    and il: "inv_limit s" and idr: "inv_drain s" and iti: "inv_timer s" and ifu: "inv_future s"
    using assms(1) by (simp_all add: invar_def)
  show ne: "queued s \<noteq> []" using hasReadyWork_iff[OF ih ir] assms(2) by simp
  then obtain w rest where q: "queued s = w # rest" by (cases "queued s") auto
  show w: "fst (admit s) = hd (queued s)"
    using next_ready[OF ir] ne by (simp add: admit_fst)
  then have w': "fst (admit s) = w" using q by simp
  let ?n = "length (startLog s)"
  have n: "?n < length (submitted s)" using ne by (simp add: queued_def)
  have wn: "w = submitted s ! ?n" using q n by (metis hd_drop_conv_nth list.sel(1) queued_def)
  show qs: "queued ?s = tl (queued s)"
    by (simp add: queued_def drop_Suc tl_drop)
  have st: "started ?s = started s @ [w]" using w' by (simp add: started_def)
  have pl: "purged s \<le> ?n" using ih by (simp add: inv_hist_def)
  show tr: "tracked ?s = tracked s @ [hd (queued s)]"
    using pl w by (simp add: tracked_def)
  have disj: "w \<notin> set (started s)" "w \<notin> set rest" "w \<noteq> workList"
    using hist_distinct(1,2,3)[OF ih] q by auto
  have wt: "w \<notin> set (tracked s)" using disj(1) tracked_subset[of s] by auto
  have 1: "inv_hist ?s"
    using ih n wn st pl by (simp add: inv_hist_def take_Suc_conv_app_nth started_def)
  have 2: "inv_ring ?s"
  proof -
    have "ring (heap s) (tracked s @ queued s)" using ir by (simp add: inv_ring_def)
    moreover have "\<forall>r. nxt (heap ?s r) = nxt (heap s r) \<and> prev (heap ?s r) = prev (heap s r)"
      by simp
    ultimately have "ring (heap ?s) (tracked s @ queued s)"
      by (rule ring_frame)
    then show ?thesis using tr qs q w' by (simp add: inv_ring_def)
  qed
  have 3: "inv_count ?s"
    using ic tr q w' disj(1) st by (auto simp: inv_count_def)
  have 4: "inv_time ?s"
  proof -
    have a: "\<forall>e \<in> set (startLog s). fst e \<noteq> w" using disj(1) by (auto simp: started_def)
    have b: "\<forall>r \<in> set (queued ?s). r \<noteq> w" using qs q disj(2) by auto
    have c: "set (queued ?s) \<subseteq> set (queued s)" using qs q by auto
    show ?thesis using it a b c pl disj(3) w'
      by (auto simp: inv_time_def start_time_def sorted_append)
  qed
  have 5: "inv_limit ?s"
  proof -
    have o: "outstandingCount s < maxOutstanding s" and qq: "qpsCount s < maxQps s"
      using assms(3) by (auto simp: canExecuteWork_def atMaxQps_def atMaxOutstanding_def)
    have "int (started_within ?s T) \<le> maxQps ?s" for T
    proof (cases "now s \<le> T")
      case True
      have "started_within ?s T \<le> length (drop (purged ?s) (startLog ?s))"
        using window_now[OF 4] True by simp
      also have "\<dots> = length (tracked ?s)" by (simp add: tracked_def)
      finally show ?thesis using ic qq tr by (simp add: inv_count_def)
    next
      case False
      then have "started_within ?s T = started_within s T"
        by (simp add: started_within_def start_time_def)
      then show ?thesis using il by (simp add: inv_limit_def)
    qed
    then show ?thesis using il ic o qq
      by (auto simp: inv_limit_def inv_count_def in_flight_then_def)
  qed
  have 6: "inv_drain ?s"
    using idr ne by (auto simp: inv_drain_def)
  have 7: "inv_timer ?s"
  proof (cases "tracked s")
    case Nil
    then show ?thesis using iti tr w' q by (simp add: inv_timer_def)
  next
    case (Cons y ys)
    then have "y \<noteq> w" using wt by auto
    then show ?thesis using iti tr w' q Cons by (simp add: inv_timer_def)
  qed
  have 8: "inv_future ?s"
    using ifu st disj(1) w' by (auto simp: inv_future_def)
  show "invar ?s" using 1 2 3 4 5 6 7 8 by (simp add: invar_def)
qed

lemma start_due:
  assumes "invar s" and "hasReadyWork s" and "canExecuteWork s" and "inv_due s"
  shows "inv_due (start s)"
proof -
  have ih: "inv_hist s" using assms(1) by (simp add: invar_def)
  note st = start_inv[OF assms(1-3)]
  have wq: "fst (admit s) \<in> set (queued s)" using st(2,4) by simp
  have nt: "fst (admit s) \<notin> set (tracked s)"
    using wq hist_distinct(1)[OF ih] by auto
  show ?thesis
  proof (cases "tracked s")
    case Nil
    then show ?thesis using assms(4) st(5) by (fastforce simp: inv_due_def)
  next
    case (Cons y ys)
    then have "y \<noteq> fst (admit s)" using nt by auto
    then show ?thesis using assms(4) st(5) Cons by (fastforce simp: inv_due_def)
  qed
qed

subsection \<open>Completion\<close>

lemma sum_case_id: "(case x of Inl e \<Rightarrow> Inl e | Inr s2 \<Rightarrow> Inr s2) = x"
  by (cases x) auto

lemma cleanup_head_alt:
  "cleanup_head w s =
     (if outstandingCount (finished w s) = 0 \<and> \<not> hasReadyWork (finished w s)
      then call_onLastWorkItemDrained (finished w s) else Inr (finished w s))"
  by (simp only: cleanup_head_def Let_def)

lemma finished_fields [simp]:
  "heap (finished w s) = heap s"
  "readyWorkPredecessor (finished w s) = readyWorkPredecessor s"
  "purged (finished w s) = purged s"
  "qpsCount (finished w s) = qpsCount s"
  "outstandingCount (finished w s) = outstandingCount s - 1"
  "startLog (finished w s) = startLog s"
  "submitted (finished w s) = submitted s"
  "inflight (finished w s) = remove1 w (inflight s)"
  "produced (finished w s) = produced s"
  "drainLog (finished w s) = drainLog s"
  "now (finished w s) = now s"
  "fresh (finished w s) = fresh s"
  "timers (finished w s) = timers s"
  "resolved (finished w s) = resolved s"
  "maxOutstanding (finished w s) = maxOutstanding s"
  "maxQps (finished w s) = maxQps s"
  "expiringWorkTimer (finished w s) = expiringWorkTimer s"
  "whenQuiescent (finished w s) = whenQuiescent s"
  "onLastWorkItemDrained (finished w s) = onLastWorkItemDrained s"
  by (simp_all add: finished_def)

lemma finished_lists [simp]:
  "queued (finished w s) = queued s" "tracked (finished w s) = tracked s"
  "started (finished w s) = started s"
  by (simp_all add: queued_def tracked_def started_def)

lemma finished_inv:
  assumes "invar s" and "w \<in> set (inflight s)"
  shows "inv_hist (finished w s)" "inv_ring (finished w s)" "inv_count (finished w s)"
    "inv_time (finished w s)" "inv_limit (finished w s)" "inv_timer (finished w s)"
    "inv_future (finished w s)"
    "whenQuiescent (finished w s) \<noteq> None"
    "onLastWorkItemDrained (finished w s) = whenQuiescent (finished w s)"
proof -
  have ih: "inv_hist s" and ir: "inv_ring s" and ic: "inv_count s" and it: "inv_time s"
    and il: "inv_limit s" and idr: "inv_drain s" and iti: "inv_timer s" and ifu: "inv_future s"
    using assms(1) by (simp_all add: invar_def)
  show "inv_hist (finished w s)" using ih by (simp add: inv_hist_def)
  show "inv_ring (finished w s)" using ir by (simp add: inv_ring_def)
  have "length (remove1 w (inflight s)) = length (inflight s) - 1"
    using assms(2) by (simp add: length_remove1)
  moreover have "1 \<le> length (inflight s)"
    using assms(2) by (cases "inflight s") auto
  ultimately have "int (length (remove1 w (inflight s))) = int (length (inflight s)) - 1"
    by linarith
  moreover have "set (remove1 w (inflight s)) \<subseteq> set (inflight s)"
    by (rule set_remove1_subset)
  ultimately show "inv_count (finished w s)" using ic
    by (simp add: inv_count_def) blast
  show "inv_time (finished w s)" using it by (simp add: inv_time_def)
  show "inv_limit (finished w s)" using il
    by (simp add: inv_limit_def started_within_def)
  show "inv_timer (finished w s)" using iti by (simp add: inv_timer_def)
  show "inv_future (finished w s)" using ifu
    by (auto simp: inv_future_def dest: notin_set_remove1)
  show "whenQuiescent (finished w s) \<noteq> None" using idr assms(2)
    by (auto simp: inv_drain_def)
  show "onLastWorkItemDrained (finished w s) = whenQuiescent (finished w s)" using idr
    by (simp add: inv_drain_def)
qed

lemma cleanup_head_ok:
  assumes "invar s" and "w \<in> set (inflight s)"
  shows "\<exists>s'. cleanup_head w s = Inr s' \<and> invar s' \<and> cleanup_rel w s s' \<and>
           (drainLog s' = drainLog s \<and> resolved s' = resolved s \<and>
              whenQuiescent s' = whenQuiescent s \<and> whenQuiescent s \<noteq> None \<and>
              \<not> (remove1 w (inflight s) = [] \<and> queued s = []) \<or>
            (\<exists>p. whenQuiescent s = Some p \<and> whenQuiescent s' = None \<and>
                 resolved s' = p # resolved s \<and>
                 drainLog s' = drainLog s @ [(0, 0, length (tracked s))] \<and>
                 remove1 w (inflight s) = [] \<and> queued s = []))"
proof -
  let ?d = "finished w s"
  note d = finished_inv[OF assms]
  have idr: "inv_drain s" using assms(1) by (simp add: invar_def)
  have rd: "hasReadyWork ?d \<longleftrightarrow> queued s \<noteq> []"
    using hasReadyWork_iff[OF d(1,2)] by simp
  have od: "outstandingCount s - 1 = 0 \<longleftrightarrow> remove1 w (inflight s) = []"
    using d(3) by (simp add: inv_count_def)
  obtain p where p: "whenQuiescent s = Some p" "onLastWorkItemDrained s = Some p"
    using d(8,9) by auto
  show ?thesis
  proof (cases "remove1 w (inflight s) = [] \<and> queued s = []")
    case False
    then have c: "cleanup_head w s = Inr ?d"
      using rd od by (auto simp: cleanup_head_alt)
    have "inv_drain ?d" using idr False p
      by (auto simp: inv_drain_def)
    then have "invar ?d" using d by (simp add: invar_def)
    moreover have "cleanup_rel w s ?d" by (simp add: cleanup_rel_def)
    ultimately show ?thesis using c False p by auto
  next
    case True
    let ?s = "?d\<lparr>resolved := p # resolved ?d, whenQuiescent := None,
                onLastWorkItemDrained := None,
                drainLog := drainLog ?d @
                  [(length (queued ?d), length (inflight ?d), length (tracked ?d))]\<rparr>"
    have c: "cleanup_head w s = Inr ?s"
      using rd od True p by (simp add: cleanup_head_alt call_onLastWorkItemDrained_def)
    have l: "queued ?s = queued s" "tracked ?s = tracked s" "started ?s = started s"
      by (simp_all add: queued_def tracked_def started_def)
    have 1: "inv_hist ?s" using d(1) l by (simp add: inv_hist_def)
    have 2: "inv_ring ?s" using d(2) l by (simp add: inv_ring_def)
    have 3: "inv_count ?s" using d(3) l by (simp add: inv_count_def)
    have 4: "inv_time ?s" using d(4) l by (simp add: inv_time_def)
    have 5: "inv_limit ?s" using d(5) l by (simp add: inv_limit_def started_within_def)
    have 6: "inv_drain ?s" using idr True l p
      by (auto simp: inv_drain_def)
    have 7: "inv_timer ?s" using d(6) l by (simp add: inv_timer_def)
    have 8: "inv_future ?s" using d(7) l by (simp add: inv_future_def)
    have "invar ?s" using 1 2 3 4 5 6 7 8 by (simp add: invar_def)
    moreover have "cleanup_rel w s ?s" using p by (auto simp: cleanup_rel_def)
    ultimately show ?thesis using c True p by auto
  qed
qed

subsection \<open>The timer\<close>

lemma updateTimer_fields [simp]:
  "heap (updateTimer s) = heap s"
  "readyWorkPredecessor (updateTimer s) = readyWorkPredecessor s"
  "purged (updateTimer s) = purged s"
  "qpsCount (updateTimer s) = qpsCount s"
  "outstandingCount (updateTimer s) = outstandingCount s"
  "startLog (updateTimer s) = startLog s"
  "submitted (updateTimer s) = submitted s"
  "inflight (updateTimer s) = inflight s"
  "produced (updateTimer s) = produced s"
  "drainLog (updateTimer s) = drainLog s"
  "now (updateTimer s) = now s"
  "resolved (updateTimer s) = resolved s"
  "maxOutstanding (updateTimer s) = maxOutstanding s"
  "maxQps (updateTimer s) = maxQps s"
  "whenQuiescent (updateTimer s) = whenQuiescent s"
  "onLastWorkItemDrained (updateTimer s) = onLastWorkItemDrained s"
  by (simp_all add: updateTimer_def setTimeout_def clearTimeout_def split: option.splits)

lemma updateTimer_lists [simp]:
  "queued (updateTimer s) = queued s" "tracked (updateTimer s) = tracked s"
  "started (updateTimer s) = started s"
  by (simp_all add: queued_def tracked_def started_def)

lemma updateTimer_preds [simp]:
  "hasReadyWork (updateTimer s) = hasReadyWork s"
  "atMaxQps (updateTimer s) = atMaxQps s"
  "atMaxOutstanding (updateTimer s) = atMaxOutstanding s"
  by (simp_all add: hasReadyWork_def atMaxQps_def atMaxOutstanding_def)

lemma updateTimer_fresh: "fresh s \<le> fresh (updateTimer s)"
  by (simp add: updateTimer_def setTimeout_def clearTimeout_def split: option.splits)

lemma filter_single_handle:
  "map fst ts = [h] \<Longrightarrow> filter (\<lambda>(h', due). h' \<noteq> h) ts = []"
  by (cases ts) auto

lemma updateTimer_timer_ok: "timer_ok (updateTimer s)"
  unfolding timer_ok_def updateTimer_preds
  by (auto simp: updateTimer_def setTimeout_def clearTimeout_def split: option.splits)

lemma arming_due:
  assumes "invar s" and "\<not> hasExpiredWork s"
  shows "expirationDelay s (first s) \<le> 1000"
    and "tracked s \<noteq> [] \<Longrightarrow> first s = hd (tracked s)"
    and "tracked s \<noteq> [] \<Longrightarrow>
           now s + expirationDelay s (first s) = expirationTime (heap s (first s))"
    and "tracked s \<noteq> [] \<Longrightarrow>
           \<exists>e \<in> set (startLog s). expirationTime (heap s (first s)) = start_time e + 1000"
    and "tracked s \<noteq> [] \<Longrightarrow> 0 < expirationDelay s (first s)"
proof -
  have ih: "inv_hist s" and ir: "inv_ring s" and it: "inv_time s"
    using assms(1) by (simp_all add: invar_def)
  have f: "first s = hd (tracked s)" if "tracked s \<noteq> []"
    using first_eq[OF ir] that by simp
  then show "tracked s \<noteq> [] \<Longrightarrow> first s = hd (tracked s)" .
  have e: "expirationTime (heap s (first s)) =
             start_time (startLog s ! purged s) + 1000 \<and>
           start_time (startLog s ! purged s) \<le> now s \<and>
           now s < start_time (startLog s ! purged s) + 1000" if ne: "tracked s \<noteq> []"
  proof -
    have "startLog s ! purged s \<in> set (startLog s)" using tracked_nth(1)[OF ne] by simp
    from expiration_started[OF it this] f[OF ne] tracked_nth(2)[OF ne]
      hasExpiredWork_iff[OF ih ir it] assms(2) ne
    show ?thesis by simp
  qed
  then show "tracked s \<noteq> [] \<Longrightarrow>
           now s + expirationDelay s (first s) = expirationTime (heap s (first s))"
    by (simp add: expirationDelay_def)
  show "\<exists>e \<in> set (startLog s). expirationTime (heap s (first s)) = start_time e + 1000"
    if ne: "tracked s \<noteq> []"
  proof -
    have "startLog s ! purged s \<in> set (startLog s)" using tracked_nth(1)[OF ne] by simp
    then show ?thesis using e[OF ne] by blast
  qed
  show "tracked s \<noteq> [] \<Longrightarrow> 0 < expirationDelay s (first s)"
    using e by (simp add: expirationDelay_def)
  show "expirationDelay s (first s) \<le> 1000"
  proof (cases "tracked s")
    case Nil
    then have "first s \<in> set (queued s) \<or> first s = workList"
      using first_eq[OF ir] by (cases "queued s") auto
    then have "expirationTime (heap s (first s)) = 0"
      using it by (auto simp: inv_time_def)
    moreover have "0 \<le> now s" using it by (simp add: inv_time_def)
    ultimately show ?thesis by (simp add: expirationDelay_def)
  next
    case (Cons y ys)
    then show ?thesis using e by (simp add: expirationDelay_def)
  qed
qed

lemma updateTimer_inv:
  assumes "invar s" and "\<not> hasExpiredWork s"
  shows "invar (updateTimer s)"
proof -
  let ?s = "updateTimer s"
  have ih: "inv_hist s" and ir: "inv_ring s" and ic: "inv_count s" and it: "inv_time s"
    and il: "inv_limit s" and idr: "inv_drain s" and iti: "inv_timer s" and ifu: "inv_future s"
    using assms(1) by (simp_all add: invar_def)
  note f = updateTimer_fresh[of s]
  have 1: "inv_hist ?s" using ih f by (fastforce simp: inv_hist_def)
  have 2: "inv_ring ?s" using ir by (simp add: inv_ring_def)
  have 3: "inv_count ?s" using ic by (simp add: inv_count_def)
  have 4: "inv_time ?s" using it by (simp add: inv_time_def)
  have 5: "inv_limit ?s" using il by (simp add: inv_limit_def started_within_def)
  have 6: "inv_drain ?s" using idr f by (fastforce simp: inv_drain_def)
  have 7: "inv_timer ?s"
  proof (cases "hasReadyWork s \<and> atMaxQps s \<and> \<not> atMaxOutstanding s")
    case True
    show ?thesis
    proof (cases "expiringWorkTimer s")
      case None
      then have "timers s = []" using iti by (simp add: inv_timer_def)
      then have
        "timers ?s = [(fresh s, now s + expirationDelay s (first s))]"
        "expiringWorkTimer ?s = Some (fresh s)"
        using True None by (simp_all add: updateTimer_def setTimeout_def)
      then show ?thesis using arming_due(1,2,3)[OF assms]
        by (auto simp: inv_timer_def)
    next
      case (Some h)
      then have "timers ?s = timers s" "expiringWorkTimer ?s = expiringWorkTimer s"
        using True by (simp_all add: updateTimer_def)
      then show ?thesis using iti by (simp add: inv_timer_def)
    qed
  next
    case False
    show ?thesis
    proof (cases "expiringWorkTimer s")
      case None
      then have "timers ?s = timers s" "expiringWorkTimer ?s = expiringWorkTimer s"
        using False by (auto simp: updateTimer_def)
      then show ?thesis using iti by (simp add: inv_timer_def)
    next
      case (Some h)
      then have "map fst (timers s) = [h]" using iti by (simp add: inv_timer_def)
      then have "timers ?s = []" "expiringWorkTimer ?s = None"
        using False Some
        by (auto simp: updateTimer_def clearTimeout_def filter_single_handle)
      then show ?thesis by (simp add: inv_timer_def)
    qed
  qed
  have 8: "inv_future ?s" using ifu by (simp add: inv_future_def)
  show ?thesis using 1 2 3 4 5 6 7 8 by (simp add: invar_def)
qed

lemma updateTimer_extends: "extends s (updateTimer s)"
  by (simp add: extends_def)

subsection \<open>Settling the future of a work item\<close>

lemma deliver_heap:
  "heap (deliver w out s) = (heap s)(w := settle out (heap s w))"
  by (simp add: deliver_def settle_work_def record_produced_def)

lemma deliver_heap_fields [simp]:
  "expirationTime (heap (deliver w out s) r) = expirationTime (heap s r)"
  "nxt (heap (deliver w out s) r) = nxt (heap s r)"
  "prev (heap (deliver w out s) r) = prev (heap s r)"
  "startWork (heap (deliver w out s) r) = startWork (heap s r)"
  "settleCalls (heap (deliver w out s) r) =
     (if r = w then settleCalls (heap s r) + 1 else settleCalls (heap s r))"
  "whenComplete (heap (deliver w out s) r) =
     (if r = w then (case whenComplete (heap s r) of None \<Rightarrow> Some out | Some old \<Rightarrow> Some old)
      else whenComplete (heap s r))"
  by (simp_all add: deliver_heap settle_def)

lemma deliver_fields [simp]:
  "readyWorkPredecessor (deliver w out s) = readyWorkPredecessor s"
  "purged (deliver w out s) = purged s"
  "qpsCount (deliver w out s) = qpsCount s"
  "outstandingCount (deliver w out s) = outstandingCount s"
  "startLog (deliver w out s) = startLog s"
  "submitted (deliver w out s) = submitted s"
  "inflight (deliver w out s) = inflight s"
  "produced (deliver w out s) = (produced s)(w := Some out)"
  "drainLog (deliver w out s) = drainLog s"
  "now (deliver w out s) = now s"
  "fresh (deliver w out s) = fresh s"
  "timers (deliver w out s) = timers s"
  "resolved (deliver w out s) = resolved s"
  "maxOutstanding (deliver w out s) = maxOutstanding s"
  "maxQps (deliver w out s) = maxQps s"
  "expiringWorkTimer (deliver w out s) = expiringWorkTimer s"
  "whenQuiescent (deliver w out s) = whenQuiescent s"
  "onLastWorkItemDrained (deliver w out s) = onLastWorkItemDrained s"
  by (simp_all add: deliver_def settle_work_def record_produced_def)

lemma deliver_lists [simp]:
  "queued (deliver w out s) = queued s" "tracked (deliver w out s) = tracked s"
  "started (deliver w out s) = started s"
  by (simp_all add: queued_def tracked_def started_def)

lemma settle_fields [simp]:
  "expirationTime (settle out x) = expirationTime x"
  "nxt (settle out x) = nxt x" "prev (settle out x) = prev x"
  "startWork (settle out x) = startWork x"
  "settleCalls (settle out x) = settleCalls x + 1"
  "whenComplete (settle out x) = (case whenComplete x of None \<Rightarrow> Some out | Some old \<Rightarrow> Some old)"
  by (simp_all add: settle_def)

lemma deliver_preds [simp]:
  "hasReadyWork (deliver w out s) = hasReadyWork s"
  "atMaxQps (deliver w out s) = atMaxQps s"
  "atMaxOutstanding (deliver w out s) = atMaxOutstanding s"
  by (simp_all add: hasReadyWork_def atMaxQps_def atMaxOutstanding_def)

lemma deliver_inv:
  assumes "invar s" and "w \<in> set (started s)" and "w \<notin> set (inflight s)"
    and "produced s w = None"
  shows "invar (deliver w out s)"
proof -
  let ?s = "deliver w out s"
  have ih: "inv_hist s" and ir: "inv_ring s" and ic: "inv_count s" and it: "inv_time s"
    and il: "inv_limit s" and idr: "inv_drain s" and iti: "inv_timer s" and ifu: "inv_future s"
    using assms(1) by (simp_all add: invar_def)
  have 1: "inv_hist ?s" using ih by (simp add: inv_hist_def)
  have 2: "inv_ring ?s"
  proof -
    have "ring (heap s) (tracked s @ queued s)" using ir by (simp add: inv_ring_def)
    moreover have "\<forall>r. nxt (heap ?s r) = nxt (heap s r) \<and> prev (heap ?s r) = prev (heap s r)"
      by simp
    ultimately have "ring (heap ?s) (tracked s @ queued s)" by (rule ring_frame)
    then show ?thesis using ir by (simp add: inv_ring_def)
  qed
  have 3: "inv_count ?s" using ic by (simp add: inv_count_def)
  have 4: "inv_time ?s" using it by (simp add: inv_time_def)
  have 5: "inv_limit ?s" using il by (simp add: inv_limit_def started_within_def)
  have 6: "inv_drain ?s" using idr by (simp add: inv_drain_def)
  have 7: "inv_timer ?s" using iti by (simp add: inv_timer_def)
  have 8: "inv_future ?s" using ifu assms(2,3,4) by (auto simp: inv_future_def)
  show ?thesis using 1 2 3 4 5 6 7 8 by (simp add: invar_def)
qed

lemma updateTimer_due:
  assumes "invar s" and "\<not> hasExpiredWork s" and "inv_due s"
  shows "inv_due (updateTimer s)"
proof (cases "hasReadyWork s \<and> atMaxQps s \<and> \<not> atMaxOutstanding s")
  case True
  have ic: "inv_count s" and iti: "inv_timer s" using assms(1) by (simp_all add: invar_def)
  show ?thesis
  proof (cases "expiringWorkTimer s")
    case None
    then have "timers s = []" using iti by (simp add: inv_timer_def)
    then have tm: "timers (updateTimer s) = [(fresh s, now s + expirationDelay s (first s))]"
      using True None by (simp add: updateTimer_def setTimeout_def)
    define D where "D = now s + expirationDelay s (first s)"
    have "(\<exists>e \<in> set (startLog s). D = start_time e + 1000) \<and>
          tracked s \<noteq> [] \<and> D = expirationTime (heap s (hd (tracked s)))"
      if "0 < maxQps s"
    proof -
      have "0 < qpsCount s" using that True by (simp add: atMaxQps_def)
      then have ne: "tracked s \<noteq> []" using ic by (auto simp: inv_count_def)
      show ?thesis using ne arming_due(2,3,4)[OF assms(1,2) ne] by (simp add: D_def)
    qed
    then have c: "0 < maxQps s \<Longrightarrow> \<exists>e \<in> set (startLog s). D = start_time e + 1000"
      and c': "0 < maxQps s \<Longrightarrow> tracked s \<noteq> []"
      and c'': "0 < maxQps s \<Longrightarrow> D = expirationTime (heap s (hd (tracked s)))"
      by blast+
    show ?thesis unfolding inv_due_def
    proof (intro impI ballI conjI)
      fix d assume m: "0 < maxQps (updateTimer s)" and d: "d \<in> set (timers (updateTimer s))"
      then have m': "0 < maxQps s" by simp
      have sd: "snd d = D" using d by (simp add: tm D_def)
      show "\<exists>e \<in> set (startLog (updateTimer s)). snd d = start_time e + 1000"
        using c[OF m'] sd by simp
      show "tracked (updateTimer s) \<noteq> []" using c'[OF m'] by simp
      show "snd d = expirationTime (heap (updateTimer s) (hd (tracked (updateTimer s))))"
        using c''[OF m'] sd by simp
    qed
  next
    case (Some h)
    then have "updateTimer s = s" using True by (simp add: updateTimer_def)
    then show ?thesis using assms(3) by simp
  qed
next
  case False
  have "set (timers (updateTimer s)) \<subseteq> set (timers s)"
    using False by (auto simp: updateTimer_def clearTimeout_def split: option.splits)
  then show ?thesis using assms(3) unfolding inv_due_def by fastforce
qed

lemma deliver_due [simp]: "inv_due (deliver w out s) = inv_due s"
  by (simp add: inv_due_def)

subsection \<open>Submission\<close>

lemma enqueue_fields [simp]:
  "heap (enqueue sw s) =
     insertAfter (fresh s) (prev (((heap s)(fresh s := new_Work sw (fresh s))) workList))
       ((heap s)(fresh s := new_Work sw (fresh s)))"
  "readyWorkPredecessor (enqueue sw s) = readyWorkPredecessor s"
  "purged (enqueue sw s) = purged s"
  "qpsCount (enqueue sw s) = qpsCount s"
  "outstandingCount (enqueue sw s) = outstandingCount s"
  "startLog (enqueue sw s) = startLog s"
  "submitted (enqueue sw s) = submitted s @ [fresh s]"
  "inflight (enqueue sw s) = inflight s"
  "produced (enqueue sw s) = produced s"
  "drainLog (enqueue sw s) = drainLog s"
  "now (enqueue sw s) = now s"
  "timers (enqueue sw s) = timers s"
  "resolved (enqueue sw s) = resolved s"
  "maxOutstanding (enqueue sw s) = maxOutstanding s"
  "maxQps (enqueue sw s) = maxQps s"
  "expiringWorkTimer (enqueue sw s) = expiringWorkTimer s"
  by (simp_all add: enqueue_def onWorkItemEnqueued_def last_work_def Let_def)

lemma enqueue_drain:
  "whenQuiescent (enqueue sw s) =
     (case whenQuiescent s of None \<Rightarrow> Some (fresh s + 1) | Some p \<Rightarrow> Some p)"
  "onLastWorkItemDrained (enqueue sw s) =
     (case whenQuiescent s of None \<Rightarrow> Some (fresh s + 1) | Some p \<Rightarrow> onLastWorkItemDrained s)"
  "fresh (enqueue sw s) = (case whenQuiescent s of None \<Rightarrow> fresh s + 2 | Some p \<Rightarrow> fresh s + 1)"
  by (simp_all add: enqueue_def onWorkItemEnqueued_def Let_def split: option.splits)

lemma ring_frame_on:
  "ring h xs \<Longrightarrow>
   (\<forall>r \<in> set (workList # xs). nxt (h' r) = nxt (h r) \<and> prev (h' r) = prev (h r)) \<Longrightarrow>
   ring h' xs"
  unfolding ring_def using dl_frame[of h workList xs workList h'] by simp

lemma enqueue_inv:
  assumes "invar s"
  shows "invar (enqueue sw s)" and "queued (enqueue sw s) = queued s @ [fresh s]"
    and "tracked (enqueue sw s) = tracked s"
proof -
  let ?s = "enqueue sw s"
  let ?w = "fresh s"
  let ?h1 = "(heap s)(?w := new_Work sw ?w)"
  have ih: "inv_hist s" and ir: "inv_ring s" and ic: "inv_count s" and it: "inv_time s"
    and il: "inv_limit s" and idr: "inv_drain s" and iti: "inv_timer s" and ifu: "inv_future s"
    using assms(1) by (simp_all add: invar_def)
  have n: "length (startLog s) \<le> length (submitted s)" using ih by (simp add: inv_hist_def)
  show q: "queued ?s = queued s @ [?w]" using n by (simp add: queued_def)
  show tr: "tracked ?s = tracked s" by (simp add: tracked_def)
  have st: "started ?s = started s" by (simp add: started_def)
  have w0: "?w \<noteq> workList" using ih by (simp add: inv_hist_def workList_def)
  have wn: "?w \<notin> set (submitted s)" using ih by (auto simp: inv_hist_def)
  have sp: "submitted s = started s @ queued s" using ih by (rule hist_split)
  have wr: "?w \<notin> set (tracked s @ queued s)"
    using wn sp tracked_subset[of s] by auto
  have fr: "fresh s < fresh ?s" by (simp add: enqueue_drain split: option.splits)
  have 1: "inv_hist ?s" using ih wn fr st
    by (auto simp: inv_hist_def started_def)
  have 2: "inv_ring ?s"
  proof -
    have "ring (heap s) (tracked s @ queued s)" using ir by (simp add: inv_ring_def)
    moreover have "\<forall>r \<in> set (workList # tracked s @ queued s).
        nxt (?h1 r) = nxt (heap s r) \<and> prev (?h1 r) = prev (heap s r)"
      using wr w0 by auto
    ultimately have "ring ?h1 (tracked s @ queued s)" by (rule ring_frame_on)
    from ring_insertAfter[OF this wr w0]
    show ?thesis using ir q tr by (simp add: inv_ring_def)
  qed
  have 3: "inv_count ?s" using ic tr st by (simp add: inv_count_def)
  have 4: "inv_time ?s"
  proof -
    have "?w \<notin> fst ` set (startLog s)" using wn sp by (simp add: started_def)
    then have "\<forall>e \<in> set (startLog s). fst e \<noteq> ?w" by (metis imageI)
    moreover have "\<forall>r \<in> set (queued s). r \<noteq> ?w" using wn sp by auto
    ultimately show ?thesis using it q w0
      by (auto simp: inv_time_def new_Work_def)
  qed
  have 5: "inv_limit ?s" using il tr by (simp add: inv_limit_def started_within_def)
  have 6: "inv_drain ?s" using idr q
    by (auto simp: inv_drain_def enqueue_drain split: option.splits)
  have 7: "inv_timer ?s"
  proof -
    have "hd (tracked s) \<noteq> ?w" if "tracked s \<noteq> []"
      using wr that by (cases "tracked s") auto
    then show ?thesis using iti tr by (auto simp: inv_timer_def)
  qed
  have 8: "inv_future ?s"
  proof -
    have "produced s ?w = None" using ifu wn sp by (auto simp: inv_future_def)
    then show ?thesis using ifu st
      by (auto simp: inv_future_def new_Work_def)
  qed
  show "invar ?s" using 1 2 3 4 5 6 7 8 by (simp add: invar_def)
qed

subsection \<open>The clock and the timeout\<close>

lemma tick_inv:
  assumes "invar s"
  shows "invar (s\<lparr>now := now s + int d\<rparr>)"
proof -
  let ?s = "s\<lparr>now := now s + int d\<rparr>"
  have ih: "inv_hist s" and ir: "inv_ring s" and ic: "inv_count s" and it: "inv_time s"
    and il: "inv_limit s" and idr: "inv_drain s" and iti: "inv_timer s" and ifu: "inv_future s"
    using assms(1) by (simp_all add: invar_def)
  have l [simp]: "queued ?s = queued s" "tracked ?s = tracked s" "started ?s = started s"
    by (simp_all add: queued_def tracked_def started_def)
  have 1: "inv_hist ?s" using ih by (simp add: inv_hist_def)
  have 2: "inv_ring ?s" using ir by (simp add: inv_ring_def)
  have 3: "inv_count ?s" using ic by (simp add: inv_count_def)
  have 4: "inv_time ?s" using it by (fastforce simp: inv_time_def)
  have 5: "inv_limit ?s" using il by (simp add: inv_limit_def started_within_def)
  have 6: "inv_drain ?s" using idr by (simp add: inv_drain_def)
  have 7: "inv_timer ?s" using iti by (fastforce simp: inv_timer_def)
  have 8: "inv_future ?s" using ifu by (simp add: inv_future_def)
  show ?thesis using 1 2 3 4 5 6 7 8 by (simp add: invar_def)
qed

lemma fired_fields [simp]:
  "heap (fired h s) = heap s"
  "readyWorkPredecessor (fired h s) = readyWorkPredecessor s"
  "purged (fired h s) = purged s"
  "qpsCount (fired h s) = qpsCount s"
  "outstandingCount (fired h s) = outstandingCount s"
  "startLog (fired h s) = startLog s"
  "submitted (fired h s) = submitted s"
  "inflight (fired h s) = inflight s"
  "produced (fired h s) = produced s"
  "drainLog (fired h s) = drainLog s"
  "now (fired h s) = now s"
  "fresh (fired h s) = fresh s"
  "resolved (fired h s) = resolved s"
  "maxOutstanding (fired h s) = maxOutstanding s"
  "maxQps (fired h s) = maxQps s"
  "whenQuiescent (fired h s) = whenQuiescent s"
  "onLastWorkItemDrained (fired h s) = onLastWorkItemDrained s"
  "expiringWorkTimer (fired h s) = None"
  "timers (fired h s) = filter (\<lambda>(h', due). h' \<noteq> h) (timers s)"
  by (simp_all add: fired_def clearTimeout_def)

lemma fired_lists [simp]:
  "queued (fired h s) = queued s" "tracked (fired h s) = tracked s"
  "started (fired h s) = started s"
  by (simp_all add: queued_def tracked_def started_def)

lemma fired_inv:
  assumes "invar s" and "map_of (timers s) h = Some due"
  shows "invar (fired h s)"
proof -
  let ?s = "fired h s"
  have ih: "inv_hist s" and ir: "inv_ring s" and ic: "inv_count s" and it: "inv_time s"
    and il: "inv_limit s" and idr: "inv_drain s" and iti: "inv_timer s" and ifu: "inv_future s"
    using assms(1) by (simp_all add: invar_def)
  have "h \<in> set (map fst (timers s))"
    using assms(2) by (metis map_of_eq_None_iff option.distinct(1) set_map)
  then have "map fst (timers s) = [h]" using iti
    by (auto simp: inv_timer_def split: option.splits)
  then have 7: "inv_timer ?s"
    by (simp add: inv_timer_def filter_single_handle)
  have 1: "inv_hist ?s" using ih by (simp add: inv_hist_def)
  have 2: "inv_ring ?s" using ir by (simp add: inv_ring_def)
  have 3: "inv_count ?s" using ic by (simp add: inv_count_def)
  have 4: "inv_time ?s" using it by (simp add: inv_time_def)
  have 5: "inv_limit ?s" using il by (simp add: inv_limit_def started_within_def)
  have 6: "inv_drain ?s" using idr by (simp add: inv_drain_def)
  have 8: "inv_future ?s" using ifu by (simp add: inv_future_def)
  show ?thesis using 1 2 3 4 5 6 7 8 by (simp add: invar_def)
qed

lemma enqueue_due:
  assumes "invar s" and "inv_due s"
  shows "inv_due (enqueue sw s)"
proof -
  have ih: "inv_hist s" using assms(1) by (simp add: invar_def)
  note tr = enqueue_inv(3)[OF assms(1), of sw]
  have "hd (tracked s) \<noteq> fresh s" if "tracked s \<noteq> []"
  proof -
    have "hd (tracked s) \<in> set (started s)" using that tracked_subset[of s] by auto
    then show ?thesis using hist_distinct(5)[OF ih] by auto
  qed
  then show ?thesis using assms(2) tr by (auto simp: inv_due_def)
qed

lemma tick_due:
  assumes "inv_due s"
  shows "inv_due (s\<lparr>now := now s + int d\<rparr>)"
proof -
  have "tracked (s\<lparr>now := now s + int d\<rparr>) = tracked s" by (simp add: tracked_def)
  then show ?thesis using assms by (fastforce simp: inv_due_def)
qed

lemma fired_due:
  assumes "inv_due s"
  shows "inv_due (fired h s)"
  using assms by (fastforce simp: inv_due_def)

subsection \<open>The procedures of the admission pass\<close>

lemma extends_refl: "extends s s"
  by (simp add: extends_def)

lemma extends_queued:
  assumes "extends s s'"
  shows "set (queued s') \<subseteq> set (queued s)" and "length (queued s') \<le> length (queued s)"
    and "set (started s) \<subseteq> set (started s')"
proof -
  have l: "length (startLog s) \<le> length (startLog s')" and sb: "submitted s' = submitted s"
    and tk: "take (length (startLog s)) (startLog s') = startLog s"
    using assms by (simp_all add: extends_def)
  show "set (queued s') \<subseteq> set (queued s)"
    using l sb by (simp add: queued_def set_drop_subset_set_drop)
  show "length (queued s') \<le> length (queued s)"
    using l sb by (simp add: queued_def)
  have "set (take (length (startLog s)) (startLog s')) \<subseteq> set (startLog s')"
    by (rule set_take_subset)
  then show "set (started s) \<subseteq> set (started s')"
    using tk by (auto simp: started_def)
qed

lemma extends_trans:
  assumes "extends s s'" and "extends s' s''"
  shows "extends s s''"
proof -
  note q = extends_queued[OF assms(1)]
  have l1: "length (startLog s) \<le> length (startLog s')"
    and t1: "take (length (startLog s)) (startLog s') = startLog s"
    and t2: "take (length (startLog s')) (startLog s'') = startLog s'"
    using assms by (simp_all add: extends_def)
  have "take (length (startLog s)) (startLog s'') =
        take (length (startLog s)) (take (length (startLog s')) (startLog s''))"
    using l1 by (simp add: min_def)
  also have "\<dots> = startLog s" using t1 t2 by simp
  finally have "take (length (startLog s)) (startLog s'') = startLog s" .
  moreover have "\<forall>r. r \<notin> set (queued s) \<or> startWork (heap s r) = ReturnsPromise \<longrightarrow>
                   produced s'' r = produced s r"
  proof (intro allI impI)
    fix r assume r: "r \<notin> set (queued s) \<or> startWork (heap s r) = ReturnsPromise"
    then have "r \<notin> set (queued s') \<or> startWork (heap s' r) = ReturnsPromise"
      using assms(1) q(1) by (auto simp: extends_def)
    then have "produced s'' r = produced s' r" using assms(2) by (simp add: extends_def)
    moreover have "produced s' r = produced s r" using r assms(1) by (simp add: extends_def)
    ultimately show "produced s'' r = produced s r" by simp
  qed
  moreover have "\<forall>p. whenQuiescent s = Some p \<longrightarrow>
                   whenQuiescent s'' = Some p \<or> p \<in> set (resolved s'')"
  proof (intro allI impI)
    fix p assume "whenQuiescent s = Some p"
    then have "whenQuiescent s' = Some p \<or> p \<in> set (resolved s')"
      using assms(1) by (simp add: extends_def)
    then show "whenQuiescent s'' = Some p \<or> p \<in> set (resolved s'')"
      using assms(2) unfolding extends_def by blast
  qed
  moreover have "set (inflight s'') \<subseteq> set (inflight s) \<union> set (queued s)"
    using assms q(1) unfolding extends_def by blast
  moreover have "set (resolved s) \<subseteq> set (resolved s'')"
    using assms unfolding extends_def by blast
  ultimately show ?thesis using assms by (simp add: extends_def)
qed

lemma purge_rel_extends: "purge_rel s s' \<Longrightarrow> extends s s'"
  by (simp add: purge_rel_def extends_def)

lemma purge_rel_lists:
  assumes "purge_rel s s'"
  shows "queued s' = queued s" "started s' = started s"
  using assms by (simp_all add: purge_rel_def queued_def started_def)

lemma cleanup_rel_extends: "cleanup_rel w s s' \<Longrightarrow> extends s s'"
  using set_remove1_subset[of w "inflight s"]
  by (auto simp: cleanup_rel_def extends_def)

lemma cleanup_rel_lists:
  assumes "cleanup_rel w s s'"
  shows "queued s' = queued s" "started s' = started s" "tracked s' = tracked s"
  using assms by (simp_all add: cleanup_rel_def queued_def started_def tracked_def)

lemma cleanup_rel_preds:
  assumes "cleanup_rel w s s'"
  shows "hasReadyWork s' = hasReadyWork s" "atMaxQps s' = atMaxQps s"
    "hasExpiredWork s' = hasExpiredWork s"
    "\<not> atMaxOutstanding s \<Longrightarrow> \<not> atMaxOutstanding s'"
  using assms
  by (simp_all add: cleanup_rel_def hasReadyWork_def atMaxQps_def atMaxOutstanding_def
      hasExpiredWork_def isExpired_def expirationDelay_def first_def)

lemma updateTimer_more_preds [simp]:
  "canExecuteWork (updateTimer s) = canExecuteWork s"
  "hasExpiredWork (updateTimer s) = hasExpiredWork s"
  by (simp_all add: canExecuteWork_def hasExpiredWork_def isExpired_def expirationDelay_def
      first_def)

lemma deliver_more_preds [simp]:
  "canExecuteWork (deliver w out s) = canExecuteWork s"
  "hasExpiredWork (deliver w out s) = hasExpiredWork s"
  "timer_ok (deliver w out s) = timer_ok s"
  by (simp_all add: canExecuteWork_def hasExpiredWork_def isExpired_def expirationDelay_def
      first_def timer_ok_def)

lemma deliver_extends:
  "w \<in> set (queued s) \<Longrightarrow> startWork (heap s w) \<noteq> ReturnsPromise \<Longrightarrow> extends s s' \<Longrightarrow>
   extends s (deliver w out s')"
  by (simp add: extends_def)

lemma start_extends:
  assumes "invar s" and "hasReadyWork s" and "canExecuteWork s"
  shows "extends s (start s)"
  using start_inv(2,4)[OF assms] by (simp add: extends_def)

lemma start_unexpired:
  assumes "invar s" and "hasReadyWork s" and "canExecuteWork s" and "\<not> hasExpiredWork s"
  shows "\<not> hasExpiredWork (start s)"
proof -
  have i: "invar (start s)" using start_inv(1)[OF assms(1-3)] .
  have a: "hasExpiredWork s \<longleftrightarrow>
      tracked s \<noteq> [] \<and> start_time (startLog s ! purged s) + 1000 \<le> now s"
    using assms(1) by (intro hasExpiredWork_iff) (simp_all add: invar_def)
  have b: "hasExpiredWork (start s) \<longleftrightarrow>
      tracked (start s) \<noteq> [] \<and>
      start_time (startLog (start s) ! purged (start s)) + 1000 \<le> now (start s)"
    using i by (intro hasExpiredWork_iff) (simp_all add: invar_def)
  have pl: "purged s \<le> length (startLog s)" using assms(1) by (simp add: invar_def inv_hist_def)
  show ?thesis
  proof (cases "purged s < length (startLog s)")
    case True
    then have "tracked s \<noteq> []" by (simp add: tracked_def)
    then show ?thesis using a b assms(4) True by (simp add: nth_append)
  next
    case False
    then have "purged s = length (startLog s)" using pl by simp
    then show ?thesis using b by (simp add: nth_append start_time_def)
  qed
qed

lemma cleanup_rel_due: "cleanup_rel w s s' \<Longrightarrow> inv_due s \<Longrightarrow> inv_due s'"
  by (simp add: cleanup_rel_def inv_due_def tracked_def)

lemma purge_admit_due: "inv_due (snd (admit s)) = inv_due s"
  by (simp add: inv_due_def admit_snd tracked_def)

lemma call_ExecuteReadyWork:
  "call ExecuteReadyWork s =
     (if hasReadyWork s \<and> canExecuteWork s then
        Option.bind (call (Execute (fst (admit s))) (snd (admit s)))
          (\<lambda>(x, s2). call ExecuteReadyWork s2)
      else Some (None, s))"
  by (subst call.simps) (simp add: case_prod_unfold Let_def)

lemma call_Execute:
  "call (Execute w) s =
     (case startWork (heap (begin_execute w s) w) of
        ReturnsPromise \<Rightarrow> Some (None, begin_execute w s)
      | Throws e \<Rightarrow>
          Option.bind (call (Cleanup w) (begin_execute w s)) (\<lambda>(x, s2).
            Some (None, case x of None \<Rightarrow> deliver w (Rejected e) s2
                           | Some x' \<Rightarrow> record_produced w (Rejected e) s2)))"
  by (subst call.simps) (simp add: Let_def)

lemma call_Cleanup:
  "call (Cleanup w) s =
     (case cleanup_head w s of
        Inl e \<Rightarrow> Some (Some e, finished w s)
      | Inr s1 \<Rightarrow> if atMaxOutstanding s then call ProcessWork s1 else Some (None, s1))"
  by (subst call.simps) (simp add: Let_def)

lemma call_ProcessWork:
  "call ProcessWork s =
     Option.bind (call PurgeExpiredWork s) (\<lambda>(x, s1).
     Option.bind (call ExecuteReadyWork s1) (\<lambda>(y, s2).
     Some (None, updateTimer s2)))"
  by (subst call.simps) simp

lemma admit_snd_facts [simp]:
  "queued (snd (admit s)) = queued s" "submitted (snd (admit s)) = submitted s"
  "startLog (snd (admit s)) = startLog s" "hasExpiredWork (snd (admit s)) = hasExpiredWork s"
  "produced (snd (admit s)) = produced s" "inflight (snd (admit s)) = inflight s"
  "now (snd (admit s)) = now s" "maxOutstanding (snd (admit s)) = maxOutstanding s"
  "maxQps (snd (admit s)) = maxQps s" "resolved (snd (admit s)) = resolved s"
  "heap (snd (admit s)) = heap s" "started (snd (admit s)) = started s"
  "whenQuiescent (snd (admit s)) = whenQuiescent s"
  by (simp_all add: admit_snd queued_def hasExpiredWork_def isExpired_def expirationDelay_def
      first_def started_def)

lemma extends_admit: "extends (snd (admit s)) s' \<longleftrightarrow> extends s s'"
  by (simp add: extends_def)

lemma settled_admit: "settled_except W (snd (admit s)) \<longleftrightarrow> settled_except W s"
  by (simp add: settled_except_def)

lemma settled_mono: "settled_except W s \<Longrightarrow> W \<subseteq> W' \<Longrightarrow> settled_except W' s"
  unfolding settled_except_def by blast

lemma settled_purge: "purge_rel s s' \<Longrightarrow> settled_except W s \<Longrightarrow> settled_except W s'"
  by (simp add: settled_except_def purge_rel_def started_def)

lemma begin_execute_fields [simp]:
  "startLog (begin_execute w s) = startLog s @ [(w, now s, length (inflight s) + 1)]"
  "inflight (begin_execute w s) = w # inflight s"
  "produced (begin_execute w s) = produced s"
  "startWork (heap (begin_execute w s) r) = startWork (heap s r)"
  "whenQuiescent (begin_execute w s) = whenQuiescent s"
  "resolved (begin_execute w s) = resolved s"
  "submitted (begin_execute w s) = submitted s"
  "now (begin_execute w s) = now s"
  "maxOutstanding (begin_execute w s) = maxOutstanding s"
  "maxQps (begin_execute w s) = maxQps s"
  by (simp_all add: begin_execute_def)

lemma settled_begin:
  assumes "settled_except W s"
  shows "settled_except (insert w W) (begin_execute w s)"
    and "startWork (heap s w) = ReturnsPromise \<Longrightarrow> settled_except W (begin_execute w s)"
  using assms by (auto simp: settled_except_def started_def)

lemma settled_cleanup:
  assumes "cleanup_rel w s s'" and "settled_except W s"
  shows "settled_except (insert w W) s'"
proof -
  have "started s' = started s" "inflight s' = remove1 w (inflight s)" "produced s' = produced s"
    "heap s' = heap s"
    using assms(1) by (simp_all add: cleanup_rel_def started_def)
  moreover have "\<And>r. r \<noteq> w \<Longrightarrow> r \<in> set (remove1 w (inflight s)) \<longleftrightarrow> r \<in> set (inflight s)"
    by simp
  ultimately show ?thesis using assms(2)
    by (auto simp: settled_except_def)
qed

lemma settled_deliver:
  assumes "settled_except (insert w W) s" and "w \<notin> set (inflight s)"
    and "\<forall>e. startWork (heap s w) = Throws e \<longrightarrow> out = Rejected e"
  shows "settled_except W (deliver w out s)"
  using assms by (auto simp: settled_except_def)

lemma settled_updateTimer [simp]: "settled_except W (updateTimer s) = settled_except W s"
  by (simp add: settled_except_def)

lemma settled_extends_startWork:
  "extends s s' \<Longrightarrow> startWork (heap s' r) = startWork (heap s r)"
  by (simp add: extends_def)

lemma deliver_saturated [simp]: "saturated (deliver w out s) = saturated s"
  by (simp add: saturated_def)

lemma updateTimer_saturated [simp]: "saturated (updateTimer s) = saturated s"
  by (simp add: saturated_def)

lemma call_ok:
  assumes "pre p s"
  shows "\<exists>s'. call p s = Some (None, s') \<and> good p s s'"
  using assms
proof (induction "4 * length (queued s) + rank p" arbitrary: p s rule: less_induct)
  case less
  show ?case
  proof (cases p)
    case PurgeExpiredWork
    then have "invar s" using less.prems by simp
    from purge_ok[OF this] obtain s' where
      s': "call PurgeExpiredWork s = Some (None, s')" "invar s'" "purge_rel s s'"
        "\<not> hasExpiredWork s'" "inv_due s \<longrightarrow> inv_due s'" by blast
    then show ?thesis using PurgeExpiredWork purge_rel_extends[OF s'(3)] settled_purge[OF s'(3)]
      by (simp add: good_def)
  next
    case ExecuteReadyWork
    then have i: "invar s" using less.prems by simp
    show ?thesis
    proof (cases "hasReadyWork s \<and> canExecuteWork s")
      case False
      then have "\<exists>s'. call ExecuteReadyWork s = Some (None, s') \<and> good ExecuteReadyWork s s'"
        using i by (subst call_ExecuteReadyWork) (auto simp: good_def extends_refl saturated_def)
      then show ?thesis using ExecuteReadyWork by simp
    next
      case True
      then have r: "hasReadyWork s" and c: "canExecuteWork s" by simp_all
      let ?w = "fst (admit s)" and ?s1 = "snd (admit s)"
      note st = start_inv[OF i r c]
      have b: "begin_execute ?w ?s1 = start s" by (simp add: start_def)
      have "pre (Execute ?w) ?s1"
        using st start_unexpired[OF i r c] start_due[OF i r c]
        by (cases "queued s") (auto simp: b purge_admit_due)
      moreover have "4 * length (queued ?s1) + rank (Execute ?w) < 4 * length (queued s) + rank p"
        using ExecuteReadyWork by simp
      ultimately obtain s2 where
        s2: "call (Execute ?w) ?s1 = Some (None, s2)" "good (Execute ?w) ?s1 s2"
        using less.hyps by blast
      then have i2: "invar s2" and e2: "extends s s2"
        and l2: "length (startLog s) < length (startLog s2)"
        and x2: "\<not> hasExpiredWork s \<longrightarrow> \<not> hasExpiredWork s2"
        and z2: "\<forall>W. settled_except W s \<longrightarrow> settled_except W s2"
        and d2: "inv_due s \<longrightarrow> inv_due s2"
        by (simp_all add: good_def extends_admit settled_admit purge_admit_due)
      have "length (queued s2) < length (queued s)"
        using l2 e2 st(4) by (simp add: queued_def extends_def)
      then have "4 * length (queued s2) + rank ExecuteReadyWork < 4 * length (queued s) + rank p"
        using ExecuteReadyWork by simp
      moreover have "pre ExecuteReadyWork s2" using i2 by simp
      ultimately obtain s3 where
        s3: "call ExecuteReadyWork s2 = Some (None, s3)" "good ExecuteReadyWork s2 s3"
        using less.hyps by blast
      have "good ExecuteReadyWork s s3"
        using s3(2) x2 z2 d2 extends_trans[OF e2] by (simp add: good_def)
      then have "\<exists>s'. call ExecuteReadyWork s = Some (None, s') \<and> good ExecuteReadyWork s s'"
        using True s2(1) s3(1) by (subst call_ExecuteReadyWork) simp
      then show ?thesis using ExecuteReadyWork by simp
    qed
  next
    case (Execute w)
    let ?s1 = "begin_execute w s"
    have i1: "invar ?s1" and wq: "w \<in> set (queued s)"
      and lq: "length (queued ?s1) < length (queued s)"
      and x1: "\<not> hasExpiredWork s \<longrightarrow> \<not> hasExpiredWork ?s1"
      and d1: "inv_due s \<longrightarrow> inv_due ?s1"
      using less.prems Execute by simp_all
    have e1: "extends s ?s1" using wq by (simp add: extends_def)
    have l1: "length (startLog s) < length (startLog ?s1)" by simp
    show ?thesis
    proof (cases "startWork (heap ?s1 w)")
      case ReturnsPromise
      then have "\<forall>W. settled_except W s \<longrightarrow> settled_except W ?s1"
        using settled_begin(2) by simp
      then have "\<exists>s'. call (Execute w) s = Some (None, s') \<and> good (Execute w) s s'"
        using ReturnsPromise i1 e1 l1 x1 d1 by (subst call_Execute) (simp add: good_def)
      then show ?thesis using Execute by simp
    next
      case (Throws e)
      have wi: "w \<in> set (inflight ?s1)" by simp
      then have "pre (Cleanup w) ?s1" using i1 by simp
      moreover have "4 * length (queued ?s1) + rank (Cleanup w) < 4 * length (queued s) + rank p"
        using lq Execute by simp
      ultimately obtain s2 where
        s2: "call (Cleanup w) ?s1 = Some (None, s2)" "good (Cleanup w) ?s1 s2"
        using less.hyps by blast
      then have i2: "invar s2" and e2: "extends ?s1 s2"
        and f2: "set (inflight s2) \<subseteq> set (remove1 w (inflight ?s1)) \<union> set (queued ?s1)"
        and x2: "\<not> hasExpiredWork ?s1 \<longrightarrow> \<not> hasExpiredWork s2"
        and z2: "\<forall>W. settled_except W ?s1 \<longrightarrow> settled_except (insert w W) s2"
        and m2: "atMaxOutstanding ?s1 \<longrightarrow> saturated s2 \<and> timer_ok s2"
        and d2: "remove1 w (inflight ?s1) = [] \<and> queued ?s1 = [] \<longrightarrow>
                   (\<exists>p. whenQuiescent ?s1 = Some p \<and> p \<in> set (resolved s2))"
        and u2: "inv_due ?s1 \<longrightarrow> inv_due s2"
        by (simp_all add: good_def)
      have ih1: "inv_hist ?s1" and ic1: "inv_count ?s1" and if1: "inv_future ?s1"
        using i1 by (simp_all add: invar_def)
      have ws: "w \<in> set (started ?s1)" using ic1 wi by (auto simp: inv_count_def)
      then have wnq: "w \<notin> set (queued ?s1)" using hist_distinct(4)[OF ih1] by auto
      have "distinct (inflight ?s1)" using ic1 by (simp add: inv_count_def)
      then have "w \<notin> set (remove1 w (inflight ?s1))" by simp
      then have a: "w \<notin> set (inflight s2)" using f2 wnq by auto
      have b: "w \<in> set (started s2)" using ws extends_queued(3)[OF e2] by auto
      have "produced ?s1 w = None" using if1 wi by (auto simp: inv_future_def)
      then have c: "produced s2 w = None" using e2 wnq by (simp add: extends_def)
      let ?s3 = "deliver w (Rejected e) s2"
      have sw2: "startWork (heap s2 w) = Throws e"
        using Throws settled_extends_startWork[OF e2] by simp
      have "invar ?s3" using deliver_inv[OF i2 b a c] .
      moreover have "extends s ?s3"
        using deliver_extends[OF wq _ extends_trans[OF e1 e2]] Throws by simp
      moreover have "length (startLog s) < length (startLog ?s3)"
        using l1 e2 by (simp add: extends_def)
      moreover have "\<forall>W. settled_except W s \<longrightarrow> settled_except W ?s3"
      proof (intro allI impI)
        fix W assume "settled_except W s"
        then have "settled_except (insert w W) ?s1" by (rule settled_begin(1))
        then have "settled_except (insert w W) s2" using z2 by fastforce
        then show "settled_except W ?s3" using a sw2 by (intro settled_deliver) auto
      qed
      moreover have "inflight s = [] \<and> queued s = [w] \<longrightarrow>
          (\<exists>p. whenQuiescent s = Some p \<and> p \<in> set (resolved ?s3))"
        using d2 lq by auto
      ultimately have "good (Execute w) s ?s3"
        using Throws a x1 x2 m2 d1 u2 by (simp add: good_def)
      then have "\<exists>s'. call (Execute w) s = Some (None, s') \<and> good (Execute w) s s'"
        using Throws s2(1) by (subst call_Execute) simp
      then show ?thesis using Execute by simp
    qed
  next
    case (Cleanup w)
    then have i: "invar s" and wi: "w \<in> set (inflight s)" using less.prems by simp_all
    from cleanup_head_ok[OF i wi] obtain s1 where
      s1: "cleanup_head w s = Inr s1" "invar s1" "cleanup_rel w s s1"
      and dr: "remove1 w (inflight s) = [] \<and> queued s = [] \<longrightarrow>
                 (\<exists>p. whenQuiescent s = Some p \<and> p \<in> set (resolved s1))"
      by fastforce
    note e1 = cleanup_rel_extends[OF s1(3)]
    note p1 = cleanup_rel_preds[OF s1(3)]
    have f1: "inflight s1 = remove1 w (inflight s)" using s1(3) by (simp add: cleanup_rel_def)
    have t1: "expiringWorkTimer s1 = expiringWorkTimer s" using s1(3) by (simp add: cleanup_rel_def)
    have z1: "\<forall>W. settled_except W s \<longrightarrow> settled_except (insert w W) s1"
      using settled_cleanup[OF s1(3)] by simp
    show ?thesis
    proof (cases "atMaxOutstanding s")
      case False
      have "timer_ok s \<longrightarrow> timer_ok s1"
        using p1 t1 False by (simp add: timer_ok_def)
      moreover have "saturated s \<longrightarrow> saturated s1"
        using p1 False by (simp add: saturated_def canExecuteWork_def)
      ultimately have "good (Cleanup w) s s1"
        using s1(2) e1 f1 False p1(3) z1 dr cleanup_rel_due[OF s1(3)] by (simp add: good_def)
      then have "\<exists>s'. call (Cleanup w) s = Some (None, s') \<and> good (Cleanup w) s s'"
        using s1(1) False by (subst call_Cleanup) simp
      then show ?thesis using Cleanup by simp
    next
      case True
      have "pre ProcessWork s1" using s1(2) by simp
      moreover have "4 * length (queued s1) + rank ProcessWork < 4 * length (queued s) + rank p"
        using Cleanup cleanup_rel_lists(1)[OF s1(3)] by simp
      ultimately obtain s2 where
        s2: "call ProcessWork s1 = Some (None, s2)" "good ProcessWork s1 s2"
        using less.hyps by blast
      then have e2: "extends s1 s2" by (simp add: good_def)
      then have "set (inflight s2) \<subseteq> set (inflight s1) \<union> set (queued s1)"
        by (simp add: extends_def)
      then have "set (inflight s2) \<subseteq> set (remove1 w (inflight s)) \<union> set (queued s)"
        using f1 cleanup_rel_lists(1)[OF s1(3)] by simp
      moreover have "\<forall>W. settled_except W s \<longrightarrow> settled_except (insert w W) s2"
        using z1 s2(2) by (simp add: good_def)
      moreover have "remove1 w (inflight s) = [] \<and> queued s = [] \<longrightarrow>
                 (\<exists>p. whenQuiescent s = Some p \<and> p \<in> set (resolved s2))"
        using dr e2 unfolding extends_def by blast
      ultimately have "good (Cleanup w) s s2"
        using s2(2) extends_trans[OF e1] p1(3) cleanup_rel_due[OF s1(3)] by (simp add: good_def)
      then have "\<exists>s'. call (Cleanup w) s = Some (None, s') \<and> good (Cleanup w) s s'"
        using s1(1) True s2(1) by (subst call_Cleanup) simp
      then show ?thesis using Cleanup by simp
    qed
  next
    case ProcessWork
    then have i: "invar s" using less.prems by simp
    from purge_ok[OF i] obtain s1 where
      s1: "call PurgeExpiredWork s = Some (None, s1)" "invar s1" "purge_rel s s1"
        "\<not> hasExpiredWork s1" "inv_due s \<longrightarrow> inv_due s1" by blast
    have "pre ExecuteReadyWork s1" using s1(2) by simp
    moreover have "4 * length (queued s1) + rank ExecuteReadyWork < 4 * length (queued s) + rank p"
      using ProcessWork purge_rel_lists(1)[OF s1(3)] by simp
    ultimately obtain s2 where
      s2: "call ExecuteReadyWork s1 = Some (None, s2)" "good ExecuteReadyWork s1 s2"
      using less.hyps by blast
    then have i2: "invar s2" and e2: "extends s1 s2" and x2: "\<not> hasExpiredWork s2"
      and sat: "saturated s2" and z2: "\<forall>W. settled_except W s1 \<longrightarrow> settled_except W s2"
      and d2: "inv_due s1 \<longrightarrow> inv_due s2"
      using s1(4) by (simp_all add: good_def)
    let ?s3 = "updateTimer s2"
    have "extends s ?s3"
      using extends_trans[OF purge_rel_extends[OF s1(3)] extends_trans[OF e2 updateTimer_extends]] .
    moreover have "\<forall>W. settled_except W s \<longrightarrow> settled_except W ?s3"
      using z2 settled_purge[OF s1(3)] by simp
    moreover have "\<exists>s2'. ?s3 = updateTimer s2' \<and> invar s2' \<and> \<not> hasExpiredWork s2' \<and>
                     extends s s2'"
      using i2 x2 extends_trans[OF purge_rel_extends[OF s1(3)] e2] by blast
    moreover have "inv_due s \<longrightarrow> inv_due ?s3"
      using s1(5) d2 updateTimer_due[OF i2 x2] by blast
    ultimately have "good ProcessWork s ?s3"
      using updateTimer_inv[OF i2 x2] updateTimer_timer_ok x2 sat
      by (simp add: good_def)
    then have "\<exists>s'. call ProcessWork s = Some (None, s') \<and> good ProcessWork s s'"
      using s1(1) s2(1) by (subst call_ProcessWork) simp
    then show ?thesis using ProcessWork by simp
  qed
qed

subsection \<open>Events\<close>

lemma init_inv:
  assumes "valid_options options"
  shows "invar (new_AsyncThrottle options)"
proof -
  let ?s = "new_AsyncThrottle options"
  have l: "queued ?s = []" "tracked ?s = []" "started ?s = []"
    by (simp_all add: queued_def tracked_def started_def new_AsyncThrottle_def)
  have m: "0 \<le> or_default (maxOutstanding_opt options) MAX_SAFE_INTEGER"
    "0 \<le> or_default (maxQps_opt options) MAX_SAFE_INTEGER"
    using assms
    by (auto simp: valid_options_def or_default_def MAX_SAFE_INTEGER_def split: option.splits)
  have 1: "inv_hist ?s" using l by (simp add: inv_hist_def) (simp add: new_AsyncThrottle_def)
  have 2: "inv_ring ?s" using l
    by (simp add: inv_ring_def ring_def) (simp add: new_AsyncThrottle_def new_Work_def)
  have 3: "inv_count ?s" using l by (simp add: inv_count_def) (simp add: new_AsyncThrottle_def)
  have 4: "inv_time ?s" using l
    by (simp add: inv_time_def) (simp add: new_AsyncThrottle_def new_Work_def)
  have 5: "inv_limit ?s" using m
    by (simp add: inv_limit_def started_within_def new_AsyncThrottle_def)
  have 6: "inv_drain ?s" using l by (simp add: inv_drain_def) (simp add: new_AsyncThrottle_def)
  have 7: "inv_timer ?s" by (simp add: inv_timer_def new_AsyncThrottle_def)
  have 8: "inv_future ?s" using l
    by (simp add: inv_future_def) (simp add: new_AsyncThrottle_def new_Work_def)
  show ?thesis using 1 2 3 4 5 6 7 8 by (simp add: invar_def)
qed

lemma init_stable:
  assumes "valid_options options"
  shows "at_rest options (new_AsyncThrottle options)"
proof -
  let ?s = "new_AsyncThrottle options"
  have "timer_ok ?s"
    by (simp add: timer_ok_def hasReadyWork_def new_AsyncThrottle_def new_Work_def)
  moreover have "settled_except {} ?s"
    by (simp add: settled_except_def started_def new_AsyncThrottle_def)
  moreover have "saturated ?s"
    by (simp add: saturated_def hasReadyWork_def new_AsyncThrottle_def new_Work_def)
  moreover have "inv_due ?s"
    by (simp add: inv_due_def new_AsyncThrottle_def)
  ultimately show ?thesis using init_inv[OF assms]
    by (simp add: at_rest_def) (simp add: new_AsyncThrottle_def)
qed

lemma processWork_ok:
  assumes "invar s"
  shows "\<exists>s'. processWork s = Some s' \<and> call ProcessWork s = Some (None, s') \<and>
              good ProcessWork s s'"
proof -
  have "pre ProcessWork s" using assms by simp
  from call_ok[OF this] show ?thesis by (auto simp: processWork_def)
qed

lemma enqueue_limits [simp]:
  "maxOutstanding (enqueue sw s) = maxOutstanding s" "maxQps (enqueue sw s) = maxQps s"
  by simp_all

lemma enqueue_settled:
  assumes "invar s" and "settled_except W s"
  shows "settled_except W (enqueue sw s)"
proof -
  have "fresh s \<notin> set (started s)"
    using hist_distinct(5)[of s] assms(1) by (auto simp: invar_def)
  then have "\<forall>r \<in> set (started s). startWork (heap (enqueue sw s) r) = startWork (heap s r)"
    by auto
  moreover have "started (enqueue sw s) = started s" by (simp add: started_def)
  ultimately show ?thesis using assms(2) by (simp add: settled_except_def)
qed

lemma callThrottled_ok:
  assumes "at_rest options s"
  shows "\<exists>s'. callThrottled sw s = Some (fresh s, s') \<and> at_rest options s' \<and>
              good ProcessWork (enqueue sw s) s'"
proof -
  have i: "invar s" and z: "settled_except {} s" and du: "inv_due s"
    using assms by (simp_all add: at_rest_def)
  from processWork_ok[OF enqueue_inv(1)[OF i, of sw]] obtain s' where
    s': "processWork (enqueue sw s) = Some s'" "good ProcessWork (enqueue sw s) s'" by blast
  have "settled_except {} s'"
    using s'(2) enqueue_settled[OF i z, of sw] by (simp add: good_def)
  moreover have "inv_due s'" using s'(2) enqueue_due[OF i du, of sw] by (simp add: good_def)
  ultimately have "at_rest options s'"
    using assms s'(2) by (simp add: at_rest_def good_def extends_def)
  then show ?thesis using s' by (simp add: callThrottled_def)
qed

lemma on_settled_ok:
  assumes "at_rest options s" and "w \<in> set (inflight s)"
  shows "\<exists>s1. call (Cleanup w) s = Some (None, s1) \<and> good (Cleanup w) s s1 \<and>
              on_settled w out s = Some (deliver w out s1) \<and>
              at_rest options (deliver w out s1) \<and>
              whenComplete (heap (deliver w out s1) w) = Some out"
proof -
  have i: "invar s" and z: "settled_except {} s" and tk: "timer_ok s" and sa: "saturated s"
    and du: "inv_due s"
    using assms by (simp_all add: at_rest_def)
  have "pre (Cleanup w) s" using i assms(2) by simp
  from call_ok[OF this] obtain s1 where
    s1: "call (Cleanup w) s = Some (None, s1)" "good (Cleanup w) s s1" by blast
  then have i1: "invar s1" and e1: "extends s s1"
    and f1: "set (inflight s1) \<subseteq> set (remove1 w (inflight s)) \<union> set (queued s)"
    and z1: "settled_except {w} s1" and t1: "timer_ok s1" and sa1: "saturated s1"
    and du1: "inv_due s1"
    using z tk sa du by (simp_all add: good_def)
  have ih: "inv_hist s" and ic: "inv_count s" and ifu: "inv_future s"
    using i by (simp_all add: invar_def)
  have ws: "w \<in> set (started s)" using ic assms(2) by (auto simp: inv_count_def)
  then have wnq: "w \<notin> set (queued s)" using hist_distinct(4)[OF ih] by auto
  have "distinct (inflight s)" using ic by (simp add: inv_count_def)
  then have "w \<notin> set (remove1 w (inflight s))" by simp
  then have a: "w \<notin> set (inflight s1)" using f1 wnq by auto
  have b: "w \<in> set (started s1)" using ws extends_queued(3)[OF e1] by auto
  have "produced s w = None" using ifu assms(2) by (auto simp: inv_future_def)
  then have c: "produced s1 w = None" using e1 wnq by (simp add: extends_def)
  have "startWork (heap s w) = ReturnsPromise"
    using z ws assms(2) by (simp add: settled_except_def)
  then have sw: "startWork (heap s1 w) = ReturnsPromise"
    using settled_extends_startWork[OF e1] by simp
  let ?s2 = "deliver w out s1"
  have i2: "invar ?s2" using deliver_inv[OF i1 b a c] .
  have "settled_except {} ?s2" using z1 a sw by (intro settled_deliver) auto
  then have "at_rest options ?s2"
    using i2 t1 sa1 du1 assms(1) e1 by (simp add: at_rest_def extends_def)
  moreover have "whenComplete (heap ?s2 w) = Some out"
  proof -
    have "whenComplete (heap ?s2 w) = produced ?s2 w"
      using i2 unfolding invar_def inv_future_def by blast
    then show ?thesis by simp
  qed
  moreover have "on_settled w out s = Some ?s2"
    using s1(1) by (simp add: on_settled_def cleanup_def)
  ultimately show ?thesis using s1 by blast
qed

lemma on_timeout_ok:
  assumes "at_rest options s" and "map_of (timers s) h = Some due"
  shows "\<exists>s'. on_timeout h s = Some s' \<and> at_rest options s' \<and> good ProcessWork (fired h s) s'"
proof -
  have i: "invar s" and z: "settled_except {} s" and du: "inv_due s"
    using assms by (simp_all add: at_rest_def)
  from processWork_ok[OF fired_inv[OF i assms(2)]] obtain s' where
    s': "processWork (fired h s) = Some s'" "good ProcessWork (fired h s) s'" by blast
  have "settled_except {} (fired h s)" using z by (simp add: settled_except_def)
  then have "settled_except {} s'" using s'(2) by (simp add: good_def)
  moreover have "inv_due s'" using s'(2) fired_due[OF du, of h] by (simp add: good_def)
  ultimately have "at_rest options s'"
    using assms(1) s'(2) by (simp add: at_rest_def good_def extends_def)
  then show ?thesis using s' by (simp add: on_timeout_def)
qed

lemma tick_stable:
  assumes "at_rest options s"
  shows "at_rest options (s\<lparr>now := now s + int d\<rparr>)"
proof -
  let ?s = "s\<lparr>now := now s + int d\<rparr>"
  have "timer_ok ?s" using assms
    by (simp add: at_rest_def timer_ok_def hasReadyWork_def atMaxQps_def atMaxOutstanding_def)
  moreover have "settled_except {} ?s" using assms
    by (simp add: at_rest_def settled_except_def started_def)
  moreover have "saturated s" using assms by (simp add: at_rest_def)
  then have "saturated ?s"
    by (simp add: saturated_def hasReadyWork_def canExecuteWork_def atMaxQps_def
        atMaxOutstanding_def)
  moreover have "inv_due ?s" using assms tick_due[of s d] by (simp add: at_rest_def)
  ultimately show ?thesis using assms tick_inv[of s d] by (simp add: at_rest_def)
qed

lemma step_stable:
  assumes "at_rest options s"
  shows "\<exists>s'. step e s = Some s' \<and> at_rest options s'"
proof (cases e)
  case (CallThrottled sw)
  then show ?thesis using callThrottled_ok[OF assms, of sw] by (auto simp: step_def)
next
  case (Settled w out)
  then show ?thesis using on_settled_ok[OF assms, of w out] assms
    by (cases "w \<in> set (inflight s)") (auto simp: step_def)
next
  case (Timeout h)
  show ?thesis
  proof (cases "map_of (timers s) h")
    case None
    then show ?thesis using Timeout assms by (simp add: step_def)
  next
    case (Some due)
    then show ?thesis using Timeout assms on_timeout_ok[OF assms Some]
      by (cases "due \<le> now s") (auto simp: step_def)
  qed
next
  case (Tick d)
  then show ?thesis using tick_stable[OF assms] by (simp add: step_def)
qed

lemma run_stable:
  assumes "at_rest options s"
  shows "\<exists>s'. run es s = Some s' \<and> at_rest options s'"
  using assms
proof (induction es arbitrary: s)
  case Nil
  then show ?case by simp
next
  case (Cons e es)
  from step_stable[OF Cons.prems] obtain s1 where
    "step e s = Some s1" "at_rest options s1" by blast
  then show ?case using Cons.IH[of s1] by simp
qed

lemma reachable_stable:
  assumes "valid_options options"
  shows "\<exists>s. run es (new_AsyncThrottle options) = Some s \<and> at_rest options s"
  using run_stable[OF init_stable[OF assms]] .

subsection \<open>Progress\<close>

lemma produced_started:
  assumes "invar s" and "produced s r = Some out"
  shows "r \<in> set (started s)" and "r \<notin> set (queued s)" and "r \<noteq> fresh s"
    and "r \<notin> set (inflight s)"
proof -
  have ih: "inv_hist s" and ifu: "inv_future s" using assms(1) by (simp_all add: invar_def)
  show a: "r \<in> set (started s)" and "r \<notin> set (inflight s)"
    using ifu assms(2) by (auto simp: inv_future_def)
  show "r \<notin> set (queued s)" using a hist_distinct(4)[OF ih] by auto
  show "r \<noteq> fresh s" using a hist_distinct(5)[OF ih] by auto
qed

lemma step_keeps_produced:
  assumes "at_rest options s" and "step e s = Some s'" and "produced s r = Some out"
  shows "produced s' r = Some out"
proof -
  have i: "invar s" using assms(1) by (simp add: at_rest_def)
  note p = produced_started[OF i assms(3)]
  show ?thesis
  proof (cases e)
    case (CallThrottled sw)
    from callThrottled_ok[OF assms(1), of sw] obtain s1 where
      s1: "callThrottled sw s = Some (fresh s, s1)" "good ProcessWork (enqueue sw s) s1"
      by blast
    then have "s' = s1" using assms(2) CallThrottled by (simp add: step_def)
    moreover have "r \<notin> set (queued (enqueue sw s))"
      using p(2,3) enqueue_inv(2)[OF i, of sw] by simp
    ultimately show ?thesis using s1(2) assms(3) by (simp add: good_def extends_def)
  next
    case (Settled w out')
    show ?thesis
    proof (cases "w \<in> set (inflight s)")
      case False
      then show ?thesis using assms(2,3) Settled by (simp add: step_def)
    next
      case True
      from on_settled_ok[OF assms(1) True, of out'] obtain s1 where
        s1: "good (Cleanup w) s s1" "on_settled w out' s = Some (deliver w out' s1)" by blast
      then have "s' = deliver w out' s1" using assms(2) Settled True by (simp add: step_def)
      moreover have "produced s1 r = Some out"
        using s1(1) p(2) assms(3) by (simp add: good_def extends_def)
      moreover have "r \<noteq> w" using True p(4) by auto
      ultimately show ?thesis by simp
    qed
  next
    case (Timeout h)
    show ?thesis
    proof (cases "map_of (timers s) h")
      case None
      then show ?thesis using assms(2,3) Timeout by (simp add: step_def)
    next
      case (Some due)
      show ?thesis
      proof (cases "due \<le> now s")
        case False
        then show ?thesis using assms(2,3) Timeout Some by (simp add: step_def)
      next
        case True
        from on_timeout_ok[OF assms(1) Some] obtain s1 where
          s1: "on_timeout h s = Some s1" "good ProcessWork (fired h s) s1" by blast
        then have "s' = s1" using assms(2) Timeout Some True by (simp add: step_def)
        moreover have "r \<notin> set (queued (fired h s))" using p(2) by simp
        ultimately show ?thesis using s1(2) assms(3) by (simp add: good_def extends_def)
      qed
    qed
  next
    case (Tick d)
    then show ?thesis using assms(2,3) by (auto simp: step_def)
  qed
qed

lemma run_keeps_produced:
  assumes "at_rest options s" and "run es s = Some s'" and "produced s r = Some out"
  shows "produced s' r = Some out"
  using assms
proof (induction es arbitrary: s)
  case Nil
  then show ?case by simp
next
  case (Cons e es)
  from step_stable[OF Cons.prems(1), of e] obtain s1 where
    s1: "step e s = Some s1" "at_rest options s1" by blast
  have "produced s1 r = Some out"
    using step_keeps_produced[OF Cons.prems(1) s1(1) Cons.prems(3)] .
  then show ?case using Cons.IH[OF s1(2)] Cons.prems(2) s1(1) by simp
qed

lemma future_is_produced:
  assumes "invar s"
  shows "whenComplete (heap s r) = produced s r"
    and "settleCalls (heap s r) = (if produced s r = None then 0 else 1)"
  using assms unfolding invar_def inv_future_def by blast+


lemma limits_positive:
  assumes "valid_options options" and "at_rest options s"
  shows "0 < maxQps s" and "0 < maxOutstanding s"
  using assms
  by (auto simp: at_rest_def valid_options_def or_default_def MAX_SAFE_INTEGER_def
      split: option.splits)

lemma follows_refl: "follows f s s"
  by (simp add: follows_def)

lemma follows_trans:
  assumes "follows f s s1" and "follows f s1 s2"
  shows "follows f s s2"
proof -
  have a1: "submitted s1 = submitted s" and a2: "\<And>r. startWork (heap s1 r) = startWork (heap s r)"
    and a3: "\<And>r out. produced s r = Some out \<Longrightarrow> produced s1 r = Some out"
    and a4: "\<And>r. produced s r = None \<Longrightarrow>
               produced s1 r = None \<or> produced s1 r = Some (outcome_of f s r)"
    and a5: "\<And>p. whenQuiescent s = Some p \<Longrightarrow>
               whenQuiescent s1 = Some p \<or> p \<in> set (resolved s1)"
    and a6: "set (resolved s) \<subseteq> set (resolved s1)"
    using assms(1) by (simp_all add: follows_def)
  have b1: "submitted s2 = submitted s1" and b2: "\<And>r. startWork (heap s2 r) = startWork (heap s1 r)"
    and b3: "\<And>r out. produced s1 r = Some out \<Longrightarrow> produced s2 r = Some out"
    and b4: "\<And>r. produced s1 r = None \<Longrightarrow>
               produced s2 r = None \<or> produced s2 r = Some (outcome_of f s1 r)"
    and b5: "\<And>p. whenQuiescent s1 = Some p \<Longrightarrow>
               whenQuiescent s2 = Some p \<or> p \<in> set (resolved s2)"
    and b6: "set (resolved s1) \<subseteq> set (resolved s2)"
    using assms(2) by (simp_all add: follows_def)
  have o: "outcome_of f s1 r = outcome_of f s r" for r
    by (simp add: outcome_of_def a2)
  have c4: "produced s2 r = None \<or> produced s2 r = Some (outcome_of f s r)"
    if n: "produced s r = None" for r
  proof (cases "produced s1 r")
    case None
    then show ?thesis using b4[of r] o[of r] by simp
  next
    case (Some out)
    then have "out = outcome_of f s r" using a4[OF n] by simp
    then show ?thesis using b3[OF Some] by simp
  qed
  have c5: "whenQuiescent s2 = Some p \<or> p \<in> set (resolved s2)"
    if "whenQuiescent s = Some p" for p
    using a5[OF that] b5[of p] b6 by auto
  have c3: "produced s2 r = Some out" if "produced s r = Some out" for r out
    using b3[OF a3[OF that]] .
  have c6: "set (resolved s) \<subseteq> set (resolved s2)" using a6 b6 by simp
  show ?thesis unfolding follows_def
    using a1 b1 a2 b2 c3 c4 c5 c6 by simp
qed

lemma pass_frame:
  assumes "invar s" and "extends s s1" and "invar s1" and "settled_except W s1"
  shows "\<And>r out. produced s r = Some out \<Longrightarrow> produced s1 r = Some out"
    and "\<And>r. r \<notin> W \<Longrightarrow> produced s r = None \<Longrightarrow>
           produced s1 r = None \<or> produced s1 r = Some (outcome_of f s r)"
proof -
  show "produced s1 r = Some out" if p: "produced s r = Some out" for r out
  proof -
    have "r \<notin> set (queued s)" using produced_started(2)[OF assms(1) p] .
    then show ?thesis using assms(2) p by (simp add: extends_def)
  qed
  show "produced s1 r = None \<or> produced s1 r = Some (outcome_of f s r)"
    if w: "r \<notin> W" and n: "produced s r = None" for r
  proof (cases "produced s1 r")
    case None
    then show ?thesis by simp
  next
    case (Some out)
    have sw: "startWork (heap s1 r) = startWork (heap s r)" using assms(2) by (simp add: extends_def)
    have "\<not> (r \<notin> set (queued s) \<or> startWork (heap s r) = ReturnsPromise)"
    proof
      assume "r \<notin> set (queued s) \<or> startWork (heap s r) = ReturnsPromise"
      then have "produced s1 r = produced s r" using assms(2) by (simp add: extends_def)
      then show False using n Some by simp
    qed
    then obtain e where e: "startWork (heap s r) = Throws e"
      by (cases "startWork (heap s r)") auto
    have "r \<in> set (started s1)" "r \<notin> set (inflight s1)"
      using produced_started(1,4)[OF assms(3) Some] .
    then have "produced s1 r = Some (Rejected e)"
      using assms(4) w e sw by (simp add: settled_except_def)
    then show ?thesis using e by (simp add: outcome_of_def)
  qed
qed

lemma pass_follows:
  assumes "invar s" and "extends s s1" and "at_rest options s1"
  shows "follows f s s1"
proof -
  have i1: "invar s1" and z1: "settled_except {} s1" using assms(3) by (simp_all add: at_rest_def)
  note pf = pass_frame[OF assms(1,2) i1 z1]
  have "\<forall>r. produced s r = None \<longrightarrow>
           produced s1 r = None \<or> produced s1 r = Some (outcome_of f s r)"
    using pf(2) by simp
  moreover have "\<forall>r out. produced s r = Some out \<longrightarrow> produced s1 r = Some out"
    using pf(1) by simp
  ultimately show ?thesis using assms(2) by (simp add: follows_def extends_def)
qed

lemma nothing_started:
  assumes "invar s" and "invar s1" and "extends s s1"
    and "length (queued s1) = length (queued s)"
    and "set (inflight s1) \<subseteq> X \<union> set (queued s)"
  shows "startLog s1 = startLog s" and "set (inflight s1) \<subseteq> X"
proof -
  have ih: "inv_hist s" and ih1: "inv_hist s1" and ic1: "inv_count s1"
    using assms(1,2) by (simp_all add: invar_def)
  have sb: "submitted s1 = submitted s"
    and tk: "take (length (startLog s)) (startLog s1) = startLog s"
    using assms(3) by (simp_all add: extends_def)
  have "length (startLog s) \<le> length (submitted s)" "length (startLog s1) \<le> length (submitted s1)"
    using ih ih1 by (simp_all add: inv_hist_def)
  then have "length (startLog s1) = length (startLog s)"
    using assms(4) sb by (simp add: queued_def)
  then show eq: "startLog s1 = startLog s" using tk by simp
  have "set (inflight s1) \<subseteq> set (started s)"
    using ic1 eq by (simp add: inv_count_def started_def)
  then show "set (inflight s1) \<subseteq> X"
    using assms(5) hist_distinct(4)[OF ih] by blast
qed

lemma settle_progress:
  assumes "at_rest options s" and "w \<in> set (inflight s)"
  shows "\<exists>s'. step (Settled w (f w)) s = Some s' \<and> at_rest options s' \<and> follows f s s' \<and>
           produced s' w = Some (f w) \<and>
           (length (queued s') < length (queued s) \<or>
            length (queued s') = length (queued s) \<and>
            length (inflight s') < length (inflight s))"
proof -
  have i: "invar s" and z: "settled_except {} s" using assms(1) by (simp_all add: at_rest_def)
  have ic: "inv_count s" and ifu: "inv_future s" using i by (simp_all add: invar_def)
  from on_settled_ok[OF assms, of "f w"] obtain s1 where
    g: "good (Cleanup w) s s1" and o: "on_settled w (f w) s = Some (deliver w (f w) s1)"
    and ar: "at_rest options (deliver w (f w) s1)" by blast
  let ?s' = "deliver w (f w) s1"
  have i1: "invar s1" and e: "extends s s1"
    and f1: "set (inflight s1) \<subseteq> set (remove1 w (inflight s)) \<union> set (queued s)"
    and z1: "settled_except {w} s1"
    using g z by (simp_all add: good_def)
  have st: "step (Settled w (f w)) s = Some ?s'" using assms(2) o by (simp add: step_def)
  have ws: "w \<in> set (started s)" using ic assms(2) by (auto simp: inv_count_def)
  have sw: "startWork (heap s w) = ReturnsPromise"
    using z ws assms(2) by (simp add: settled_except_def)
  have pw: "produced s w = None" using ifu assms(2) by (auto simp: inv_future_def)
  note pf = pass_frame[OF i e i1 z1]
  have fo: "follows f s ?s'"
  proof -
    have "produced ?s' r = Some out" if "produced s r = Some out" for r out
      using pf(1)[OF that] that pw by (cases "r = w") auto
    moreover have "produced ?s' r = None \<or> produced ?s' r = Some (outcome_of f s r)"
      if "produced s r = None" for r
    proof (cases "r = w")
      case True
      then show ?thesis using sw by (simp add: outcome_of_def)
    next
      case False
      then show ?thesis using pf(2)[of r] that by simp
    qed
    ultimately show ?thesis using e by (simp add: follows_def extends_def)
  qed
  have m: "length (queued ?s') < length (queued s) \<or>
            length (queued ?s') = length (queued s) \<and>
            length (inflight ?s') < length (inflight s)"
  proof (cases "length (queued s1) = length (queued s)")
    case False
    then show ?thesis using extends_queued(2)[OF e] by simp
  next
    case True
    have sub: "set (inflight s1) \<subseteq> set (remove1 w (inflight s))"
      using nothing_started(2)[OF i i1 e True f1] .
    have "distinct (inflight s1)" using i1 by (simp add: invar_def inv_count_def)
    then have "length (inflight s1) = card (set (inflight s1))" by (simp add: distinct_card)
    also have "\<dots> \<le> card (set (remove1 w (inflight s)))"
      using sub by (intro card_mono) simp_all
    also have "\<dots> \<le> length (remove1 w (inflight s))" by (rule card_length)
    also have "\<dots> < length (inflight s)"
      using assms(2) by (simp add: length_remove1) (cases "inflight s"; simp)
    finally show ?thesis using True by simp
  qed
  show ?thesis using st ar fo m by (intro exI[of _ ?s']) simp
qed

lemma timeout_progress:
  assumes vo: "valid_options options" and ar: "at_rest options s"
    and nf: "inflight s = []" and q: "queued s \<noteq> []"
  shows "\<exists>h s'. expiringWorkTimer s = Some h \<and>
           run [Tick 1000, Timeout h] s = Some s' \<and> at_rest options s' \<and> follows f s s' \<and>
           length (queued s') < length (queued s)"
proof -
  have i: "invar s" and tk: "timer_ok s" and sa: "saturated s"
    using ar by (simp_all add: at_rest_def)
  have ih: "inv_hist s" and ir: "inv_ring s" and ic: "inv_count s" and it: "inv_time s"
    and iti: "inv_timer s" using i by (simp_all add: invar_def)
  note lp = limits_positive[OF vo ar]
  have r: "hasReadyWork s" using hasReadyWork_iff[OF ih ir] q by simp
  have "outstandingCount s = 0" using ic nf by (simp add: inv_count_def)
  then have nmo: "\<not> atMaxOutstanding s" using lp(2) by (simp add: atMaxOutstanding_def)
  then have mq: "atMaxQps s" using sa r by (simp add: saturated_def canExecuteWork_def)
  then obtain h where h: "expiringWorkTimer s = Some h"
    using tk r nmo by (auto simp: timer_ok_def)
  then have mf: "map fst (timers s) = [h]" using iti by (simp add: inv_timer_def)
  then obtain D where tm: "timers s = [(h, D)]" by (cases "timers s") auto
  have D: "D \<le> now s + 1000" using iti tm by (simp add: inv_timer_def)
  let ?t = "s\<lparr>now := now s + int 1000\<rparr>"
  have art: "at_rest options ?t" using tick_stable[OF ar] .
  have mo: "map_of (timers ?t) h = Some D" using tm by simp
  from on_timeout_ok[OF art mo] obtain s' where
    s': "on_timeout h ?t = Some s'" "at_rest options s'" "good ProcessWork (fired h ?t) s'"
    by blast
  let ?u = "fired h ?t"
  have rn: "run [Tick 1000, Timeout h] s = Some s'"
    using s'(1) tm D by (simp add: step_def)
  have it': "invar ?t" using art by (simp add: at_rest_def)
  have iu: "invar ?u" using fired_inv[OF it' mo] .
  have e: "extends ?u s'" and nx: "\<not> hasExpiredWork s'" and sa': "saturated s'"
    using s'(3) by (simp_all add: good_def)
  have i': "invar s'" using s'(2) by (simp add: at_rest_def)
  have ih': "inv_hist s'" and ir': "inv_ring s'" and ic': "inv_count s'" and it'': "inv_time s'"
    using i' by (simp_all add: invar_def)
  have qu: "queued ?u = queued s" by (simp add: queued_def)
  have "follows f s ?u" by (simp add: follows_def outcome_of_def)
  then have fo: "follows f s s'"
    using follows_trans pass_follows[OF iu e s'(2)] by blast
  have lt: "length (queued s') < length (queued s)"
  proof (rule ccontr)
    assume "\<not> length (queued s') < length (queued s)"
    then have eq: "length (queued s') = length (queued ?u)"
      using extends_queued(2)[OF e] qu by simp
    have "set (inflight s') \<subseteq> {} \<union> set (queued ?u)"
      using e nf by (simp add: extends_def)
    note ns = nothing_started[OF iu i' e eq this]
    have nf': "inflight s' = []" using ns(2) by simp
    have sl: "startLog s' = startLog s" using ns(1) by simp
    have "queued s' \<noteq> []" using eq qu q by (metis length_0_conv)
    then have r': "hasReadyWork s'" using hasReadyWork_iff[OF ih' ir'] by simp
    have "outstandingCount s' = 0" using ic' nf' by (simp add: inv_count_def)
    then have "\<not> atMaxOutstanding s'"
      using limits_positive(2)[OF vo s'(2)] by (simp add: atMaxOutstanding_def)
    then have "atMaxQps s'" using sa' r' by (simp add: saturated_def canExecuteWork_def)
    then have "0 < qpsCount s'"
      using limits_positive(1)[OF vo s'(2)] by (simp add: atMaxQps_def)
    then have ne: "tracked s' \<noteq> []" using ic' by (auto simp: inv_count_def)
    then have a: "\<not> start_time (startLog s' ! purged s') + 1000 \<le> now s'"
      using hasExpiredWork_iff[OF ih' ir' it''] nx by simp
    have "startLog s' ! purged s' \<in> set (startLog s)"
      using tracked_nth(1)[OF ne] sl by simp
    then have b: "start_time (startLog s' ! purged s') \<le> now s"
      using expiration_started[OF it] by blast
    have "now s' = now s + 1000" using e by (simp add: extends_def)
    then show False using a b by simp
  qed
  show ?thesis using h rn s'(2) fo lt by blast
qed

lemma run_append: "run (es @ es') s = Option.bind (run es s) (run es')"
proof (induction es arbitrary: s)
  case Nil
  then show ?case by simp
next
  case (Cons e es)
  then show ?case by (cases "step e s") simp_all
qed

lemma idle_settled:
  assumes "at_rest options s" and "queued s = []" and "inflight s = []"
    and "r \<in> set (submitted s)"
  shows "produced s r \<noteq> None"
proof -
  have i: "invar s" and z: "settled_except {} s" using assms(1) by (simp_all add: at_rest_def)
  have "submitted s = started s" using hist_split[of s] i assms(2) by (simp add: invar_def)
  then have "r \<in> set (started s)" using assms(4) by simp
  then show ?thesis using z assms(3) by (simp add: settled_except_def)
qed

lemma drains:
  assumes vo: "valid_options options"
  shows "at_rest options s \<Longrightarrow>
         \<exists>es s'. run es s = Some s' \<and> list_all (host_settles f) es \<and>
           at_rest options s' \<and> follows f s s' \<and> queued s' = [] \<and> inflight s' = []"
proof (induction s rule: wf_induct_rule[OF wf_measures[of "[\<lambda>s. length (queued s), \<lambda>s. length (inflight s)]"]])
  case (1 s)
  show ?case
  proof (cases "inflight s")
    case (Cons w ws)
    then have "w \<in> set (inflight s)" by simp
    from settle_progress[OF "1.prems" this, of f] obtain s1 where
      s1: "step (Settled w (f w)) s = Some s1" "at_rest options s1" "follows f s s1"
        "length (queued s1) < length (queued s) \<or>
         length (queued s1) = length (queued s) \<and> length (inflight s1) < length (inflight s)"
      by blast
    then have "(s1, s) \<in> measures [\<lambda>s. length (queued s), \<lambda>s. length (inflight s)]"
      by auto
    from "1.IH"[OF this s1(2)] obtain es s' where
      r: "run es s1 = Some s'" "at_rest options s'" "follows f s1 s'"
        "queued s' = []" "inflight s' = []" and hs: "list_all (host_settles f) es" by blast
    have "run (Settled w (f w) # es) s = Some s'" using s1(1) r(1) by simp
    moreover have "list_all (host_settles f) (Settled w (f w) # es)"
      using hs by (simp add: host_settles_def)
    ultimately show ?thesis using r follows_trans[OF s1(3) r(3)] by blast
  next
    case Nil
    show ?thesis
    proof (cases "queued s")
      case Nil': Nil
      have "run [] s = Some s" "list_all (host_settles f) []" by simp_all
      then show ?thesis using "1.prems" Nil Nil' follows_refl by blast
    next
      case (Cons x xs)
      then have "queued s \<noteq> []" by simp
      from timeout_progress[OF vo "1.prems" Nil this, of f] obtain h s1 where
        s1: "run [Tick 1000, Timeout h] s = Some s1" "at_rest options s1" "follows f s s1"
          "length (queued s1) < length (queued s)" by blast
      then have "(s1, s) \<in> measures [\<lambda>s. length (queued s), \<lambda>s. length (inflight s)]"
        by auto
      from "1.IH"[OF this s1(2)] obtain es s' where
        r: "run es s1 = Some s'" "at_rest options s'" "follows f s1 s'"
          "queued s' = []" "inflight s' = []" and hs: "list_all (host_settles f) es" by blast
      have "run ([Tick 1000, Timeout h] @ es) s = Some s'"
        using s1(1) r(1) by (simp only: run_append) simp
      moreover have "list_all (host_settles f) ([Tick 1000, Timeout h] @ es)"
        using hs by (simp add: host_settles_def)
      ultimately show ?thesis using r follows_trans[OF s1(3) r(3)] by blast
    qed
  qed
qed

lemma drains_outcomes:
  assumes "valid_options options" and "at_rest options s"
  shows "\<exists>es s'. run es s = Some s' \<and> list_all (host_settles f) es \<and> at_rest options s' \<and>
           queued s' = [] \<and> inflight s' = [] \<and> submitted s' = submitted s \<and>
           (\<forall>r \<in> set (submitted s).
              produced s' r =
                (case produced s r of Some out \<Rightarrow> Some out
                 | None \<Rightarrow> Some (outcome_of f s r))) \<and>
           (\<forall>p. whenQuiescent s = Some p \<longrightarrow> p \<in> set (resolved s')) \<and>
           whenQuiescent s' = None \<and> set (resolved s) \<subseteq> set (resolved s')"
proof -
  from drains[OF assms, of f] obtain es s' where
    r: "run es s = Some s'" "at_rest options s'" "follows f s s'"
      "queued s' = []" "inflight s' = []" and hs: "list_all (host_settles f) es" by blast
  have sb: "submitted s' = submitted s"
    and a3: "\<And>r out. produced s r = Some out \<Longrightarrow> produced s' r = Some out"
    and a4: "\<And>r. produced s r = None \<Longrightarrow>
               produced s' r = None \<or> produced s' r = Some (outcome_of f s r)"
    and a5: "\<And>p. whenQuiescent s = Some p \<Longrightarrow>
               whenQuiescent s' = Some p \<or> p \<in> set (resolved s')"
    and a6: "set (resolved s) \<subseteq> set (resolved s')"
    using r(3) by (simp_all add: follows_def)
  have wq: "whenQuiescent s' = None"
    using r(2,4,5) by (simp add: at_rest_def invar_def inv_drain_def)
  have "produced s' x =
          (case produced s x of Some out \<Rightarrow> Some out | None \<Rightarrow> Some (outcome_of f s x))"
    if "x \<in> set (submitted s)" for x
  proof (cases "produced s x")
    case None
    have "produced s' x \<noteq> None"
      using idle_settled[OF r(2,4,5)] that sb by simp
    then show ?thesis using a4[OF None] None by auto
  next
    case (Some out)
    then show ?thesis using a3[OF Some] by simp
  qed
  moreover have "\<forall>p. whenQuiescent s = Some p \<longrightarrow> p \<in> set (resolved s')"
    using a5 wq by fastforce
  ultimately show ?thesis using r hs sb wq a6 by blast
qed

lemma callThrottled_returns:
  assumes "at_rest options s"
  shows "\<exists>s'. callThrottled sw s = Some (fresh s, s') \<and> at_rest options s' \<and>
           fresh s \<notin> set (submitted s) \<and> submitted s' = submitted s @ [fresh s] \<and>
           startWork (heap s' (fresh s)) = sw \<and>
           (fresh s \<in> set (queued s') \<longrightarrow>
              produced s' (fresh s) = None \<and> (atMaxQps s' \<or> atMaxOutstanding s')) \<and>
           (fresh s \<notin> set (queued s') \<longrightarrow>
              (case sw of
                 Throws e \<Rightarrow> produced s' (fresh s) = Some (Rejected e)
               | ReturnsPromise \<Rightarrow>
                   fresh s \<in> set (inflight s') \<and> produced s' (fresh s) = None))"
proof -
  let ?r = "fresh s"
  have i: "invar s" using assms by (simp add: at_rest_def)
  have ih: "inv_hist s" and ifu: "inv_future s" using i by (simp_all add: invar_def)
  from callThrottled_ok[OF assms, of sw] obtain s' where
    c: "callThrottled sw s = Some (?r, s')" and ar: "at_rest options s'"
    and g: "good ProcessWork (enqueue sw s) s'" by blast
  have e: "extends (enqueue sw s) s'" using g by (simp add: good_def)
  have i': "invar s'" and z': "settled_except {} s'" and sa': "saturated s'"
    using ar by (simp_all add: at_rest_def)
  have ih': "inv_hist s'" and ir': "inv_ring s'" using i' by (simp_all add: invar_def)
  have ns: "?r \<notin> set (submitted s)" using ih by (auto simp: inv_hist_def)
  have sb: "submitted s' = submitted s @ [?r]" using e by (simp add: extends_def)
  have sw0: "startWork (heap (enqueue sw s) ?r) = sw" by (simp add: new_Work_def)
  then have sw': "startWork (heap s' ?r) = sw" using e by (simp add: extends_def)
  have "?r \<notin> set (started s)" using ns hist_split[OF ih] by simp
  then have p0: "produced s ?r = None" using ifu by (auto simp: inv_future_def)
  have a: "produced s' ?r = None \<and> (atMaxQps s' \<or> atMaxOutstanding s')"
    if q: "?r \<in> set (queued s')"
  proof -
    have "produced s' ?r = None"
    proof (cases "produced s' ?r")
      case (Some out)
      then show ?thesis using produced_started(2)[OF i' Some] q by simp
    qed simp
    moreover have "hasReadyWork s'" using hasReadyWork_iff[OF ih' ir'] q by auto
    then have "atMaxQps s' \<or> atMaxOutstanding s'"
      using sa' by (auto simp: saturated_def canExecuteWork_def)
    ultimately show ?thesis by simp
  qed
  have b: "case sw of
             Throws e \<Rightarrow> produced s' ?r = Some (Rejected e)
           | ReturnsPromise \<Rightarrow> ?r \<in> set (inflight s') \<and> produced s' ?r = None"
    if q: "?r \<notin> set (queued s')"
  proof -
    have "?r \<in> set (submitted s')" using sb by simp
    then have "?r \<in> set (started s') \<union> set (queued s')"
      using hist_split[OF ih'] by (metis set_append)
    then have st: "?r \<in> set (started s')" using q by simp
    show ?thesis
    proof (cases sw)
      case (Throws x)
      then have "?r \<notin> set (inflight s')" using z' st sw' by (auto simp: settled_except_def)
      then show ?thesis using z' st sw' Throws by (simp add: settled_except_def)
    next
      case ReturnsPromise
      then have "produced s' ?r = produced (enqueue sw s) ?r"
        using e sw0 by (simp add: extends_def)
      then have n: "produced s' ?r = None" using p0 by simp
      then have "?r \<in> set (inflight s')" using z' st by (auto simp: settled_except_def)
      then show ?thesis using n ReturnsPromise by simp
    qed
  qed
  show ?thesis using c ar ns sb sw' a b by blast
qed

lemma step_keeps_drain:
  assumes "at_rest options s" and "step e s = Some s'"
  shows "set (resolved s) \<subseteq> set (resolved s')"
    and "whenQuiescent s = Some p \<Longrightarrow> whenQuiescent s' = Some p \<or> p \<in> set (resolved s')"
proof -
  have i: "invar s" using assms(1) by (simp add: at_rest_def)
  have "set (resolved s) \<subseteq> set (resolved s') \<and>
        (whenQuiescent s = Some p \<longrightarrow> whenQuiescent s' = Some p \<or> p \<in> set (resolved s'))"
  proof (cases e)
    case (CallThrottled sw)
    from callThrottled_ok[OF assms(1), of sw] obtain s1 where
      s1: "callThrottled sw s = Some (fresh s, s1)" "good ProcessWork (enqueue sw s) s1"
      by blast
    then have "s' = s1" using assms(2) CallThrottled by (simp add: step_def)
    then have "extends (enqueue sw s) s'" using s1(2) by (simp add: good_def)
    then show ?thesis by (auto simp: extends_def enqueue_drain)
  next
    case (Settled w out)
    show ?thesis
    proof (cases "w \<in> set (inflight s)")
      case False
      then show ?thesis using assms(2) Settled by (simp add: step_def)
    next
      case True
      from on_settled_ok[OF assms(1) True, of out] obtain s1 where
        s1: "good (Cleanup w) s s1" "on_settled w out s = Some (deliver w out s1)" by blast
      then have "s' = deliver w out s1" using assms(2) Settled True by (simp add: step_def)
      moreover have "extends s s1" using s1(1) by (simp add: good_def)
      ultimately show ?thesis by (auto simp: extends_def)
    qed
  next
    case (Timeout h)
    show ?thesis
    proof (cases "map_of (timers s) h")
      case None
      then show ?thesis using assms(2) Timeout by (simp add: step_def)
    next
      case (Some due)
      show ?thesis
      proof (cases "due \<le> now s")
        case False
        then show ?thesis using assms(2) Timeout Some by (simp add: step_def)
      next
        case True
        from on_timeout_ok[OF assms(1) Some] obtain s1 where
          s1: "on_timeout h s = Some s1" "good ProcessWork (fired h s) s1" by blast
        then have "s' = s1" using assms(2) Timeout Some True by (simp add: step_def)
        then have "extends (fired h s) s'" using s1(2) by (simp add: good_def)
        then show ?thesis by (auto simp: extends_def)
      qed
    qed
  next
    case (Tick d)
    then show ?thesis using assms(2) by (auto simp: step_def)
  qed
  then show "set (resolved s) \<subseteq> set (resolved s')"
    and "whenQuiescent s = Some p \<Longrightarrow> whenQuiescent s' = Some p \<or> p \<in> set (resolved s')"
    by simp_all
qed

lemma run_keeps_drain:
  assumes "at_rest options s" and "run es s = Some s'"
  shows "set (resolved s) \<subseteq> set (resolved s')"
    and "whenQuiescent s = Some p \<Longrightarrow> whenQuiescent s' = Some p \<or> p \<in> set (resolved s')"
proof -
  have "set (resolved s) \<subseteq> set (resolved s') \<and>
        (whenQuiescent s = Some p \<longrightarrow> whenQuiescent s' = Some p \<or> p \<in> set (resolved s'))"
    using assms
  proof (induction es arbitrary: s)
    case Nil
    then show ?case by simp
  next
    case (Cons e es)
    from step_stable[OF Cons.prems(1), of e] obtain s1 where
      s1: "step e s = Some s1" "at_rest options s1" by blast
    note k = step_keeps_drain[OF Cons.prems(1) s1(1)]
    have r: "run es s1 = Some s'" using Cons.prems(2) s1(1) by simp
    from Cons.IH[OF s1(2) r] k show ?case by blast
  qed
  then show "set (resolved s) \<subseteq> set (resolved s')"
    and "whenQuiescent s = Some p \<Longrightarrow> whenQuiescent s' = Some p \<or> p \<in> set (resolved s')"
    by simp_all
qed




section \<open>The claims\<close>

subsection \<open>Supporting facts\<close>

lemma limits_of_options:
  assumes "at_rest options s"
  shows "\<forall>k. maxOutstanding_opt options = Some k \<longrightarrow> k \<noteq> 0 \<longrightarrow> maxOutstanding s = k"
    and "\<forall>k. maxQps_opt options = Some k \<longrightarrow> k \<noteq> 0 \<longrightarrow> maxQps s = k"
  using assms by (auto simp: at_rest_def or_default_def)

lemma inflight_incomplete:
  assumes "at_rest options s"
  shows "set (inflight s) = {r \<in> set (started s). produced s r = None}"
proof -
  have ic: "inv_count s" and ifu: "inv_future s" and z: "settled_except {} s"
    using assms by (simp_all add: at_rest_def invar_def)
  have "set (inflight s) \<subseteq> set (started s)" using ic by (simp add: inv_count_def)
  moreover have "\<forall>r \<in> set (inflight s). produced s r = None"
    using ifu unfolding inv_future_def by blast
  moreover have "\<forall>r \<in> set (started s). produced s r = None \<longrightarrow> r \<in> set (inflight s)"
    using z unfolding settled_except_def by blast
  ultimately show ?thesis by blast
qed

lemma tracked_unexpired:
  assumes "inv_time s" and "e \<in> set (startLog s)" and "now s < start_time e + 1000"
  shows "fst e \<in> set (tracked s)"
proof -
  have "e \<notin> set (take (purged s) (startLog s))"
    using assms(1,3) by (fastforce simp: inv_time_def)
  moreover have "set (startLog s) =
      set (take (purged s) (startLog s)) \<union> set (drop (purged s) (startLog s))"
    by (metis append_take_drop_id set_append)
  ultimately have "e \<in> set (drop (purged s) (startLog s))" using assms(2) by blast
  then show ?thesis by (auto simp: tracked_def drop_map)
qed

lemma untracked_expired:
  assumes "inv_time s" and "r \<in> set (started s)" and "r \<notin> set (tracked s)"
  shows "expirationTime (heap s r) \<le> now s"
proof -
  obtain e where e: "e \<in> set (startLog s)" "fst e = r"
    using assms(2) by (auto simp: started_def)
  have "\<not> now s < start_time e + 1000"
    using tracked_unexpired[OF assms(1) e(1)] e(2) assms(3) by auto
  then show ?thesis using expiration_started[OF assms(1) e(1)] e(2) by simp
qed

lemma exact_count:
  assumes "invar s" and "\<not> hasExpiredWork s"
  shows "qpsCount s = int (started_within s (now s))"
proof -
  have ih: "inv_hist s" and ir: "inv_ring s" and ic: "inv_count s" and it: "inv_time s"
    using assms(1) by (simp_all add: invar_def)
  let ?P = "\<lambda>e. now s - 1000 < start_time e \<and> start_time e \<le> now s"
  let ?a = "take (purged s) (startLog s)" and ?b = "drop (purged s) (startLog s)"
  have a: "filter ?P ?a = []"
    using it by (auto simp: inv_time_def filter_empty_conv)
  have "\<forall>e \<in> set ?b. ?P e"
  proof
    fix e assume e: "e \<in> set ?b"
    then have ne: "tracked s \<noteq> []" by (auto simp: tracked_def)
    have pl: "purged s < length (startLog s)" using tracked_nth(1)[OF ne] .
    from e obtain i where i: "i < length ?b" "e = ?b ! i" by (metis in_set_conv_nth)
    then have ei: "e = startLog s ! (purged s + i)" "purged s + i < length (startLog s)"
      by auto
    have "sorted (map start_time (startLog s))" using it by (simp add: inv_time_def)
    then have "map start_time (startLog s) ! purged s \<le>
               map start_time (startLog s) ! (purged s + i)"
      using ei(2) by (intro sorted_nth_mono) auto
    then have le: "start_time (startLog s ! purged s) \<le> start_time e"
      using ei pl by simp
    have "\<not> start_time (startLog s ! purged s) + 1000 \<le> now s"
      using hasExpiredWork_iff[OF ih ir it] assms(2) ne by simp
    moreover have "e \<in> set (startLog s)" using e by (metis in_set_dropD)
    ultimately show "?P e" using le expiration_started[OF it] by fastforce
  qed
  then have b: "filter ?P ?b = ?b" by (simp add: filter_id_conv)
  have "filter ?P (startLog s) = filter ?P ?a @ filter ?P ?b"
    by (simp flip: filter_append)
  then have "started_within s (now s) = length ?b"
    using a b by (simp add: started_within_def)
  also have "\<dots> = length (tracked s)" by (simp add: tracked_def)
  finally show ?thesis using ic by (simp add: inv_count_def)
qed

lemma window_latest:
  fixes f :: "'a \<Rightarrow> int"
  assumes "filter (\<lambda>e. T \<le> f e \<and> f e < T + 1000) xs \<noteq> []"
  shows "\<exists>m. \<forall>e \<in> set xs. T \<le> f e \<and> f e < T + 1000 \<longrightarrow> m - 1000 < f e \<and> f e \<le> m"
proof -
  define A where "A = f ` {e \<in> set xs. T \<le> f e \<and> f e < T + 1000}"
  have fin: "finite A" by (simp add: A_def)
  obtain e0 where e0: "e0 \<in> set xs" "T \<le> f e0" "f e0 < T + 1000"
    using assms by (induction xs) (auto split: if_splits)
  then have ne: "A \<noteq> {}" by (auto simp: A_def)
  have "Max A \<in> A" using Max_in[OF fin ne] .
  then have m: "Max A < T + 1000" by (auto simp: A_def)
  have "Max A - 1000 < f e \<and> f e \<le> Max A"
    if "e \<in> set xs" "T \<le> f e" "f e < T + 1000" for e
  proof -
    have "f e \<in> A" using that by (auto simp: A_def)
    then have "f e \<le> Max A" using Max_ge[OF fin] by simp
    then show ?thesis using that(2) m by simp
  qed
  then show ?thesis by blast
qed

lemma filter_length_mono:
  assumes "\<forall>x \<in> set xs. P x \<longrightarrow> Q x"
  shows "length (filter P xs) \<le> length (filter Q xs)"
  using assms by (induction xs) auto

lemma window_from:
  assumes "inv_limit s" and "inv_count s"
  shows "int (length (filter (\<lambda>e. T \<le> start_time e \<and> start_time e < T + 1000)
                  (startLog s))) \<le> maxQps s"
proof (cases "filter (\<lambda>e. T \<le> start_time e \<and> start_time e < T + 1000) (startLog s) = []")
  case True
  have "0 \<le> qpsCount s" using assms(2) by (simp add: inv_count_def)
  then show ?thesis using True assms(1) by (simp add: inv_limit_def)
next
  case False
  obtain m where m: "\<forall>e \<in> set (startLog s).
      T \<le> start_time e \<and> start_time e < T + 1000 \<longrightarrow> m - 1000 < start_time e \<and> start_time e \<le> m"
    using window_latest[OF False] by blast
  have "length (filter (\<lambda>e. T \<le> start_time e \<and> start_time e < T + 1000) (startLog s))
          \<le> length (filter (\<lambda>e. m - 1000 < start_time e \<and> start_time e \<le> m) (startLog s))"
    by (rule filter_length_mono) (rule m)
  also have "\<dots> = started_within s m" by (simp add: started_within_def)
  finally have "int (length (filter (\<lambda>e. T \<le> start_time e \<and> start_time e < T + 1000)
                  (startLog s))) \<le> int (started_within s m)" by simp
  moreover have "int (started_within s m) \<le> maxQps s"
    using assms(1) by (simp add: inv_limit_def)
  ultimately show ?thesis by linarith
qed

lemma fifo_order:
  assumes "inv_hist s"
  shows "\<forall>i j. i < j \<and> j < length (submitted s) \<and> submitted s ! j \<in> set (started s) \<longrightarrow>
               submitted s ! i \<in> set (started s)"
    and "\<forall>k < length (startLog s). fst (startLog s ! k) = submitted s ! k"
proof -
  let ?n = "length (startLog s)"
  have st: "started s = take ?n (submitted s)" and d: "distinct (submitted s)"
    and n: "?n \<le> length (submitted s)"
    using assms by (simp_all add: inv_hist_def)
  show "\<forall>k < ?n. fst (startLog s ! k) = submitted s ! k"
  proof (intro allI impI)
    fix k assume k: "k < ?n"
    then have "started s ! k = submitted s ! k" using st by simp
    then show "fst (startLog s ! k) = submitted s ! k" using k by (simp add: started_def)
  qed
  show "\<forall>i j. i < j \<and> j < length (submitted s) \<and> submitted s ! j \<in> set (started s) \<longrightarrow>
               submitted s ! i \<in> set (started s)"
  proof (intro allI impI)
    fix i j assume a: "i < j \<and> j < length (submitted s) \<and> submitted s ! j \<in> set (started s)"
    then obtain k where k: "k < ?n" "take ?n (submitted s) ! k = submitted s ! j"
      using st n by (metis in_set_conv_nth length_take min.absorb2)
    then have "submitted s ! k = submitted s ! j" by simp
    then have "k = j" using d a k(1) n by (simp add: nth_eq_iff_index_eq)
    then have "i < ?n" using a k(1) by simp
    then have "submitted s ! i = take ?n (submitted s) ! i" by simp
    also have "\<dots> \<in> set (take ?n (submitted s))"
      using \<open>i < ?n\<close> n by (intro nth_mem) simp
    finally show "submitted s ! i \<in> set (started s)" using st by simp
  qed
qed

subsection \<open>C1: the cap on outstanding work\<close>

text \<open>
  Claim C1.  For every configuration with \<open>maxOutstanding = k\<close> and every sequence of
  submissions, completions and timer fires, at no point are more than \<open>k\<close> items started
  and not completed: after every event \<open>0 \<le> outstandingCount \<le> maxOutstanding\<close>, the
  counter is the number of items whose work function ran and has not completed, and each
  time a work function was invoked the number of items in flight, this one included, was
  within the limit.
\<close>

theorem outstanding_cap:
  assumes "valid_options options"
  shows "\<exists>s. run es (new_AsyncThrottle options) = Some s \<and>
           maxOutstanding s = or_default (maxOutstanding_opt options) MAX_SAFE_INTEGER \<and>
           (\<forall>k. maxOutstanding_opt options = Some k \<longrightarrow> k \<noteq> 0 \<longrightarrow>
                int (length (inflight s)) \<le> k) \<and>
           0 \<le> outstandingCount s \<and> outstandingCount s \<le> maxOutstanding s \<and>
           outstandingCount s = int (length (inflight s)) \<and> distinct (inflight s) \<and>
           set (inflight s) = {r \<in> set (started s). produced s r = None} \<and>
           (\<forall>e \<in> set (startLog s). int (in_flight_then e) \<le> maxOutstanding s)"
proof -
  from reachable_stable[OF assms, of es] obtain s where
    s: "run es (new_AsyncThrottle options) = Some s" "at_rest options s" by blast
  have ic: "inv_count s" and il: "inv_limit s"
    using s(2) by (simp_all add: at_rest_def invar_def)
  have m: "maxOutstanding s = or_default (maxOutstanding_opt options) MAX_SAFE_INTEGER"
    using s(2) by (simp add: at_rest_def)
  have c: "outstandingCount s = int (length (inflight s))" "distinct (inflight s)"
    using ic by (simp_all add: inv_count_def)
  have l: "outstandingCount s \<le> maxOutstanding s"
    "\<forall>e \<in> set (startLog s). int (in_flight_then e) \<le> maxOutstanding s"
    using il by (simp_all add: inv_limit_def)
  have "\<forall>k. maxOutstanding_opt options = Some k \<longrightarrow> k \<noteq> 0 \<longrightarrow>
            int (length (inflight s)) \<le> k"
    using limits_of_options(1)[OF s(2)] c(1) l(1) by auto
  then show ?thesis using s(1) m c l inflight_incomplete[OF s(2)] by auto
qed

theorem outstanding_cap_witness:
  "valid_options \<lparr>maxOutstanding_opt = Some 1, maxQps_opt = None\<rparr> \<and>
   (\<exists>s. run [CallThrottled ReturnsPromise, CallThrottled ReturnsPromise, Tick 5,
              Settled 1 (Fulfilled 7)]
           (new_AsyncThrottle \<lparr>maxOutstanding_opt = Some 1, maxQps_opt = None\<rparr>) = Some s \<and>
        maxOutstanding s = 1 \<and> int (length (inflight s)) \<le> 1 \<and>
        0 \<le> outstandingCount s \<and> outstandingCount s \<le> 1)"
  using outstanding_cap[of "\<lparr>maxOutstanding_opt = Some 1, maxQps_opt = None\<rparr>"
      "[CallThrottled ReturnsPromise, CallThrottled ReturnsPromise, Tick 5,
        Settled 1 (Fulfilled 7)]"]
  by (auto simp: valid_options_def or_default_def)

subsection \<open>C2: the cap on the start rate\<close>

text \<open>
  Claim C2.  For every configuration with \<open>maxQps = k\<close>, at no point have more than \<open>k\<close>
  items been started within any window of 1000ms, whether it is taken to end at a time
  \<open>T\<close> (the starts after \<open>T - 1000\<close> up to \<open>T\<close>) or to begin there (the starts from \<open>T\<close> to
  before \<open>T + 1000\<close>); an item started exactly 1000ms after another is in the next
  window.  Every started item expires 1000ms after its start; until then it is linked in the list and counted by \<open>qpsCount\<close>,
  whether or not it has completed; an item that is no longer linked has expired; and
  after an admission pass \<open>qpsCount\<close> is exactly the number of items started within the
  last 1000ms.
\<close>

theorem qps_cap:
  assumes "valid_options options"
  shows "\<exists>s. run es (new_AsyncThrottle options) = Some s \<and>
           maxQps s = or_default (maxQps_opt options) MAX_SAFE_INTEGER \<and>
           (\<forall>T. int (started_within s T) \<le> maxQps s) \<and>
           (\<forall>k. maxQps_opt options = Some k \<longrightarrow> k \<noteq> 0 \<longrightarrow>
                (\<forall>T. int (started_within s T) \<le> k)) \<and>
           (\<forall>T. int (length (filter (\<lambda>e. T \<le> start_time e \<and> start_time e < T + 1000)
                            (startLog s))) \<le> maxQps s) \<and>
           (\<forall>e \<in> set (startLog s).
                expirationTime (heap s (fst e)) = start_time e + 1000 \<and>
                (now s < start_time e + 1000 \<longrightarrow> fst e \<in> set (tracked s))) \<and>
           (\<forall>r \<in> set (started s). r \<notin> set (tracked s) \<longrightarrow> expirationTime (heap s r) \<le> now s) \<and>
           ring (heap s) (tracked s @ queued s) \<and>
           qpsCount s = int (length (tracked s)) \<and> qpsCount s \<le> maxQps s \<and>
           (\<exists>s'. processWork s = Some s' \<and> qpsCount s' = int (started_within s' (now s')))"
proof -
  from reachable_stable[OF assms, of es] obtain s where
    s: "run es (new_AsyncThrottle options) = Some s" "at_rest options s" by blast
  have i: "invar s" using s(2) by (simp add: at_rest_def)
  have ir: "inv_ring s" and ic: "inv_count s" and il: "inv_limit s" and it: "inv_time s"
    using i by (simp_all add: invar_def)
  have m: "maxQps s = or_default (maxQps_opt options) MAX_SAFE_INTEGER"
    using s(2) by (simp add: at_rest_def)
  have w: "\<forall>T. int (started_within s T) \<le> maxQps s" and q: "qpsCount s \<le> maxQps s"
    using il by (simp_all add: inv_limit_def)
  have k: "\<forall>k. maxQps_opt options = Some k \<longrightarrow> k \<noteq> 0 \<longrightarrow>
                (\<forall>T. int (started_within s T) \<le> k)"
    using limits_of_options(2)[OF s(2)] w by auto
  have e: "\<forall>e \<in> set (startLog s).
                expirationTime (heap s (fst e)) = start_time e + 1000 \<and>
                (now s < start_time e + 1000 \<longrightarrow> fst e \<in> set (tracked s))"
    using expiration_started[OF it] tracked_unexpired[OF it] by blast
  have u: "\<forall>r \<in> set (started s). r \<notin> set (tracked s) \<longrightarrow> expirationTime (heap s r) \<le> now s"
    using untracked_expired[OF it] by blast
  from processWork_ok[OF i] obtain s' where
    s': "processWork s = Some s'" "good ProcessWork s s'" by blast
  then have "qpsCount s' = int (started_within s' (now s'))"
    by (intro exact_count) (simp_all add: good_def)
  then have p: "\<exists>s'. processWork s = Some s' \<and> qpsCount s' = int (started_within s' (now s'))"
    using s'(1) by blast
  have r: "ring (heap s) (tracked s @ queued s)" "qpsCount s = int (length (tracked s))"
    using ir ic by (simp_all add: inv_ring_def inv_count_def)
  have f: "\<forall>T. int (length (filter (\<lambda>e. T \<le> start_time e \<and> start_time e < T + 1000)
                            (startLog s))) \<le> maxQps s"
    using window_from[OF il ic] by blast
  show ?thesis using s(1) m w k f e u r q p by blast
qed

theorem qps_cap_witness:
  "valid_options \<lparr>maxOutstanding_opt = None, maxQps_opt = Some 2\<rparr> \<and>
   (\<exists>s. run [CallThrottled ReturnsPromise, Tick 500, CallThrottled ReturnsPromise,
              CallThrottled ReturnsPromise, Settled 1 (Fulfilled 7), Tick 500, Timeout 5]
           (new_AsyncThrottle \<lparr>maxOutstanding_opt = None, maxQps_opt = Some 2\<rparr>) = Some s \<and>
        maxQps s = 2 \<and> (\<forall>T. int (started_within s T) \<le> 2) \<and> qpsCount s \<le> 2)"
  using qps_cap[of "\<lparr>maxOutstanding_opt = None, maxQps_opt = Some 2\<rparr>"
      "[CallThrottled ReturnsPromise, Tick 500, CallThrottled ReturnsPromise,
        CallThrottled ReturnsPromise, Settled 1 (Fulfilled 7), Tick 500, Timeout 5]"]
  by (auto simp: valid_options_def or_default_def)

subsection \<open>C3: admission in submission order\<close>

text \<open>
  Claim C3.  Items are started in submission order: the work functions invoked so far
  are those of the first items submitted, in that order, so no item is started while an
  item submitted before it is still queued; the items not yet started are the rest of
  the submissions, linked in that order behind the tracked ones, and the item the
  admission loop takes next is the earliest of them.
\<close>

theorem fifo_admission:
  assumes "valid_options options"
  shows "\<exists>s. run es (new_AsyncThrottle options) = Some s \<and>
           submitted s = started s @ queued s \<and> distinct (submitted s) \<and>
           (\<forall>k < length (startLog s). fst (startLog s ! k) = submitted s ! k) \<and>
           sorted (map start_time (startLog s)) \<and>
           (\<forall>i j. i < j \<and> j < length (submitted s) \<and> submitted s ! j \<in> set (started s) \<longrightarrow>
                  submitted s ! i \<in> set (started s)) \<and>
           ring (heap s) (tracked s @ queued s) \<and>
           (hasReadyWork s \<longleftrightarrow> queued s \<noteq> []) \<and>
           (queued s \<noteq> [] \<longrightarrow> fst (admit s) = hd (queued s))"
proof -
  from reachable_stable[OF assms, of es] obtain s where
    s: "run es (new_AsyncThrottle options) = Some s" "at_rest options s" by blast
  have ih: "inv_hist s" and ir: "inv_ring s" and it: "inv_time s"
    using s(2) by (simp_all add: at_rest_def invar_def)
  have a: "submitted s = started s @ queued s" using hist_split[OF ih] .
  have b: "distinct (submitted s)" using ih by (simp add: inv_hist_def)
  have c: "sorted (map start_time (startLog s))" using it by (simp add: inv_time_def)
  have d: "queued s \<noteq> [] \<longrightarrow> fst (admit s) = hd (queued s)"
    using next_ready[OF ir] by (simp add: admit_fst)
  have e: "ring (heap s) (tracked s @ queued s)" using ir by (simp add: inv_ring_def)
  show ?thesis using s(1) a b c d e fifo_order[OF ih] hasReadyWork_iff[OF ih ir] by blast
qed

theorem fifo_admission_witness:
  "valid_options \<lparr>maxOutstanding_opt = Some 1, maxQps_opt = None\<rparr> \<and>
   (\<exists>s. run [CallThrottled ReturnsPromise, CallThrottled (Throws (Error 3)),
              CallThrottled ReturnsPromise, Settled 1 (Fulfilled 7)]
           (new_AsyncThrottle \<lparr>maxOutstanding_opt = Some 1, maxQps_opt = None\<rparr>) = Some s \<and>
        submitted s = started s @ queued s \<and>
        (\<forall>k < length (startLog s). fst (startLog s ! k) = submitted s ! k))"
  using fifo_admission[of "\<lparr>maxOutstanding_opt = Some 1, maxQps_opt = None\<rparr>"
      "[CallThrottled ReturnsPromise, CallThrottled (Throws (Error 3)),
        CallThrottled ReturnsPromise, Settled 1 (Fulfilled 7)]"]
  by (auto simp: valid_options_def)

subsection \<open>C4: settlement of the returned future\<close>

text \<open>
  Claim C4.  The future returned by \<open>callThrottled\<close> settles exactly once, with what the
  item's own work function produced: its resolution functions are called once when the
  work completes and not before; when the promise returned by the work function settles
  with a value or an error, the future settles with that value or error and keeps it in
  every later state; when the work function throws, the future is rejected with what it
  threw.

  The theorem is about the state \<open>s\<close> after any events.  \<open>callThrottled\<close> returns there the
  future of a new item, the last submission, holding the given work function; the item is
  either still queued, with a pending future and a limit reached, or it has been started
  in the same call: then a work function that throws has rejected the future with what it
  threw, and one that returns a promise is in flight with the future pending.  Work is
  only left queued while a limit is reached.  Every future settles: however the host
  settles the promises the work functions return (\<open>f r\<close> for item \<open>r\<close>), there are events of
  the host alone, without further submissions, after which nothing is queued or in flight,
  every future of a submitted item has been settled by exactly one call, the futures that
  were settled in \<open>s\<close> are as they were, and each other one holds what its work function
  produced: the thrown error as a rejection, or \<open>f r\<close>.
\<close>

theorem settlement_fidelity:
  assumes "valid_options options"
  shows "\<exists>s. run es (new_AsyncThrottle options) = Some s \<and>
           (\<forall>r. whenComplete (heap s r) = produced s r \<and> settleCalls (heap s r) \<le> 1 \<and>
                (whenComplete (heap s r) \<noteq> None \<longleftrightarrow> settleCalls (heap s r) = 1)) \<and>
           (\<forall>r \<in> set (started s). r \<notin> set (inflight s) \<longrightarrow> whenComplete (heap s r) \<noteq> None) \<and>
           (\<forall>r \<in> set (inflight s) \<union> set (queued s). whenComplete (heap s r) = None) \<and>
           (\<forall>r \<in> set (started s). \<forall>e. startWork (heap s r) = Throws e \<longrightarrow>
                whenComplete (heap s r) = Some (Rejected e)) \<and>
           (\<forall>w \<in> set (inflight s). \<forall>out. \<exists>s'.
                step (Settled w out) s = Some s' \<and> whenComplete (heap s' w) = Some out \<and>
                settleCalls (heap s' w) = 1 \<and>
                (\<forall>es' s''. run es' s' = Some s'' \<longrightarrow>
                    whenComplete (heap s'' w) = Some out \<and> settleCalls (heap s'' w) = 1)) \<and>
           (queued s \<noteq> [] \<longrightarrow> atMaxQps s \<or> atMaxOutstanding s) \<and>
           (\<forall>sw. \<exists>s'. callThrottled sw s = Some (fresh s, s') \<and>
                step (CallThrottled sw) s = Some s' \<and>
                fresh s \<notin> set (submitted s) \<and> submitted s' = submitted s @ [fresh s] \<and>
                startWork (heap s' (fresh s)) = sw \<and>
                (fresh s \<in> set (queued s') \<longrightarrow>
                   whenComplete (heap s' (fresh s)) = None \<and>
                   (atMaxQps s' \<or> atMaxOutstanding s')) \<and>
                (fresh s \<notin> set (queued s') \<longrightarrow>
                   (case sw of
                      Throws e \<Rightarrow>
                        whenComplete (heap s' (fresh s)) = Some (Rejected e) \<and>
                        settleCalls (heap s' (fresh s)) = 1
                    | ReturnsPromise \<Rightarrow>
                        fresh s \<in> set (inflight s') \<and>
                        whenComplete (heap s' (fresh s)) = None))) \<and>
           (\<forall>f. \<exists>es' s'. run es' s = Some s' \<and> list_all (host_settles f) es' \<and>
                submitted s' = submitted s \<and> queued s' = [] \<and> inflight s' = [] \<and>
                (\<forall>r \<in> set (submitted s).
                   settleCalls (heap s' r) = 1 \<and>
                   whenComplete (heap s' r) =
                     (case whenComplete (heap s r) of
                        Some out \<Rightarrow> Some out
                      | None \<Rightarrow>
                          Some (case startWork (heap s r) of
                                  Throws e \<Rightarrow> Rejected e
                                | ReturnsPromise \<Rightarrow> f r))))"
proof -
  from reachable_stable[OF assms, of es] obtain s where
    s: "run es (new_AsyncThrottle options) = Some s" "at_rest options s" by blast
  have i: "invar s" and z: "settled_except {} s" and sa: "saturated s"
    using s(2) by (simp_all add: at_rest_def)
  have ih: "inv_hist s" and ir: "inv_ring s" and ifu: "inv_future s"
    using i by (simp_all add: invar_def)
  note f = future_is_produced[OF i]
  have 1: "\<forall>r. whenComplete (heap s r) = produced s r \<and> settleCalls (heap s r) \<le> 1 \<and>
                (whenComplete (heap s r) \<noteq> None \<longleftrightarrow> settleCalls (heap s r) = 1)"
    using f by simp
  have 2: "\<forall>r \<in> set (started s). r \<notin> set (inflight s) \<longrightarrow> whenComplete (heap s r) \<noteq> None"
    using z f(1) unfolding settled_except_def by simp
  have 3: "\<forall>r \<in> set (inflight s) \<union> set (queued s). whenComplete (heap s r) = None"
  proof
    fix r assume r: "r \<in> set (inflight s) \<union> set (queued s)"
    have "produced s r = None"
    proof (rule ccontr)
      assume "produced s r \<noteq> None"
      then obtain out where "produced s r = Some out" by auto
      from produced_started(2,4)[OF i this] r show False by auto
    qed
    then show "whenComplete (heap s r) = None" using f(1) by simp
  qed
  have 4: "\<forall>r \<in> set (started s). \<forall>e. startWork (heap s r) = Throws e \<longrightarrow>
                whenComplete (heap s r) = Some (Rejected e)"
  proof (intro ballI allI impI)
    fix r e assume r: "r \<in> set (started s)" and t: "startWork (heap s r) = Throws e"
    then have "r \<notin> set (inflight s)" using z unfolding settled_except_def by auto
    then have "produced s r = Some (Rejected e)"
      using z r t unfolding settled_except_def by auto
    then show "whenComplete (heap s r) = Some (Rejected e)" using f(1) by simp
  qed
  have 5: "\<forall>w \<in> set (inflight s). \<forall>out. \<exists>s'.
                step (Settled w out) s = Some s' \<and> whenComplete (heap s' w) = Some out \<and>
                settleCalls (heap s' w) = 1 \<and>
                (\<forall>es' s''. run es' s' = Some s'' \<longrightarrow>
                    whenComplete (heap s'' w) = Some out \<and> settleCalls (heap s'' w) = 1)"
  proof (intro ballI allI)
    fix w out assume w: "w \<in> set (inflight s)"
    from on_settled_ok[OF s(2) w, of out] obtain s1 where
      s1: "on_settled w out s = Some (deliver w out s1)" "at_rest options (deliver w out s1)"
      by blast
    let ?s = "deliver w out s1"
    have st: "step (Settled w out) s = Some ?s" using s1(1) w by (simp add: step_def)
    have p: "produced ?s w = Some out" by simp
    have after: "whenComplete (heap s'' w) = Some out \<and> settleCalls (heap s'' w) = 1"
      if "run es' ?s = Some s''" for es' s''
    proof -
      have "produced s'' w = Some out" using run_keeps_produced[OF s1(2) that p] .
      moreover have "invar s''"
        using run_stable[OF s1(2), of es'] that by (auto simp: at_rest_def)
      ultimately show ?thesis using future_is_produced[of s'' w] by simp
    qed
    have "run [] ?s = Some ?s" by simp
    from after[OF this] after st
    show "\<exists>s'. step (Settled w out) s = Some s' \<and> whenComplete (heap s' w) = Some out \<and>
                settleCalls (heap s' w) = 1 \<and>
                (\<forall>es' s''. run es' s' = Some s'' \<longrightarrow>
                    whenComplete (heap s'' w) = Some out \<and> settleCalls (heap s'' w) = 1)"
      by blast
  qed
  have 6: "queued s \<noteq> [] \<longrightarrow> atMaxQps s \<or> atMaxOutstanding s"
    using sa hasReadyWork_iff[OF ih ir] by (auto simp: saturated_def canExecuteWork_def)
  have 7: "\<forall>sw. \<exists>s'. callThrottled sw s = Some (fresh s, s') \<and>
                step (CallThrottled sw) s = Some s' \<and>
                fresh s \<notin> set (submitted s) \<and> submitted s' = submitted s @ [fresh s] \<and>
                startWork (heap s' (fresh s)) = sw \<and>
                (fresh s \<in> set (queued s') \<longrightarrow>
                   whenComplete (heap s' (fresh s)) = None \<and>
                   (atMaxQps s' \<or> atMaxOutstanding s')) \<and>
                (fresh s \<notin> set (queued s') \<longrightarrow>
                   (case sw of
                      Throws e \<Rightarrow>
                        whenComplete (heap s' (fresh s)) = Some (Rejected e) \<and>
                        settleCalls (heap s' (fresh s)) = 1
                    | ReturnsPromise \<Rightarrow>
                        fresh s \<in> set (inflight s') \<and>
                        whenComplete (heap s' (fresh s)) = None))"
  proof
    fix sw
    from callThrottled_returns[OF s(2), of sw] obtain s' where
      c: "callThrottled sw s = Some (fresh s, s')" and ar: "at_rest options s'"
      and ns: "fresh s \<notin> set (submitted s)" and sb: "submitted s' = submitted s @ [fresh s]"
      and sw': "startWork (heap s' (fresh s)) = sw"
      and q: "fresh s \<in> set (queued s') \<longrightarrow>
                produced s' (fresh s) = None \<and> (atMaxQps s' \<or> atMaxOutstanding s')"
      and nq: "fresh s \<notin> set (queued s') \<longrightarrow>
              (case sw of
                 Throws e \<Rightarrow> produced s' (fresh s) = Some (Rejected e)
               | ReturnsPromise \<Rightarrow>
                   fresh s \<in> set (inflight s') \<and> produced s' (fresh s) = None)"
      by blast
    have i': "invar s'" using ar by (simp add: at_rest_def)
    note f' = future_is_produced[OF i', of "fresh s"]
    have st: "step (CallThrottled sw) s = Some s'" using c by (simp add: step_def)
    have q': "fresh s \<in> set (queued s') \<longrightarrow>
                   whenComplete (heap s' (fresh s)) = None \<and>
                   (atMaxQps s' \<or> atMaxOutstanding s')"
      using q f'(1) by simp
    have nq': "fresh s \<notin> set (queued s') \<longrightarrow>
                   (case sw of
                      Throws e \<Rightarrow>
                        whenComplete (heap s' (fresh s)) = Some (Rejected e) \<and>
                        settleCalls (heap s' (fresh s)) = 1
                    | ReturnsPromise \<Rightarrow>
                        fresh s \<in> set (inflight s') \<and>
                        whenComplete (heap s' (fresh s)) = None)"
      using nq f' by (cases sw) auto
    show "\<exists>s'. callThrottled sw s = Some (fresh s, s') \<and>
                step (CallThrottled sw) s = Some s' \<and>
                fresh s \<notin> set (submitted s) \<and> submitted s' = submitted s @ [fresh s] \<and>
                startWork (heap s' (fresh s)) = sw \<and>
                (fresh s \<in> set (queued s') \<longrightarrow>
                   whenComplete (heap s' (fresh s)) = None \<and>
                   (atMaxQps s' \<or> atMaxOutstanding s')) \<and>
                (fresh s \<notin> set (queued s') \<longrightarrow>
                   (case sw of
                      Throws e \<Rightarrow>
                        whenComplete (heap s' (fresh s)) = Some (Rejected e) \<and>
                        settleCalls (heap s' (fresh s)) = 1
                    | ReturnsPromise \<Rightarrow>
                        fresh s \<in> set (inflight s') \<and>
                        whenComplete (heap s' (fresh s)) = None))"
      using c st ns sb sw' q' nq' by (intro exI[of _ s'] conjI) assumption+
  qed
  have 8: "\<forall>f. \<exists>es' s'. run es' s = Some s' \<and> list_all (host_settles f) es' \<and>
                submitted s' = submitted s \<and> queued s' = [] \<and> inflight s' = [] \<and>
                (\<forall>r \<in> set (submitted s).
                   settleCalls (heap s' r) = 1 \<and>
                   whenComplete (heap s' r) =
                     (case whenComplete (heap s r) of
                        Some out \<Rightarrow> Some out
                      | None \<Rightarrow>
                          Some (case startWork (heap s r) of
                                  Throws e \<Rightarrow> Rejected e
                                | ReturnsPromise \<Rightarrow> f r)))"
  proof
    fix f
    from drains_outcomes[OF assms s(2), of f] obtain es' s' where
      r: "run es' s = Some s'" "list_all (host_settles f) es'" "at_rest options s'"
        "queued s' = []" "inflight s' = []" "submitted s' = submitted s"
      and p: "\<forall>r \<in> set (submitted s).
              produced s' r =
                (case produced s r of Some out \<Rightarrow> Some out
                 | None \<Rightarrow> Some (outcome_of f s r))"
      by blast
    have i': "invar s'" using r(3) by (simp add: at_rest_def)
    have "settleCalls (heap s' x) = 1 \<and>
          whenComplete (heap s' x) =
            (case whenComplete (heap s x) of
               Some out \<Rightarrow> Some out
             | None \<Rightarrow>
                 Some (case startWork (heap s x) of
                         Throws e \<Rightarrow> Rejected e
                       | ReturnsPromise \<Rightarrow> f x))"
      if x: "x \<in> set (submitted s)" for x
    proof -
      have e: "produced s' x =
                (case produced s x of Some out \<Rightarrow> Some out
                 | None \<Rightarrow> Some (outcome_of f s x))" using p x by simp
      then have "produced s' x \<noteq> None" by (cases "produced s x") simp_all
      then have "settleCalls (heap s' x) = 1" using future_is_produced(2)[OF i', of x] by simp
      moreover have "whenComplete (heap s' x) =
            (case whenComplete (heap s x) of
               Some out \<Rightarrow> Some out
             | None \<Rightarrow>
                 Some (case startWork (heap s x) of
                         Throws e \<Rightarrow> Rejected e
                       | ReturnsPromise \<Rightarrow> f x))"
        using e future_is_produced(1)[OF i', of x] f(1)[of x]
        by (cases "produced s x") (simp_all add: outcome_of_def)
      ultimately show ?thesis by simp
    qed
    then show "\<exists>es' s'. run es' s = Some s' \<and> list_all (host_settles f) es' \<and>
                submitted s' = submitted s \<and> queued s' = [] \<and> inflight s' = [] \<and>
                (\<forall>r \<in> set (submitted s).
                   settleCalls (heap s' r) = 1 \<and>
                   whenComplete (heap s' r) =
                     (case whenComplete (heap s r) of
                        Some out \<Rightarrow> Some out
                      | None \<Rightarrow>
                          Some (case startWork (heap s r) of
                                  Throws e \<Rightarrow> Rejected e
                                | ReturnsPromise \<Rightarrow> f r)))"
      using r by blast
  qed
  show ?thesis
    apply (rule exI[of _ s])
    apply (intro conjI)
            apply (rule s(1))
           apply (rule 1)
          apply (rule 2)
         apply (rule 3)
        apply (rule 4)
       apply (rule 5)
      apply (rule 6)
     apply (rule 7)
    apply (rule 8)
    done
qed

lemma settlement_run:
  "map_option (\<lambda>s. (whenComplete (heap s 1), settleCalls (heap s 1),
                      whenComplete (heap s 3), settleCalls (heap s 3), submitted s))
     (run [CallThrottled ReturnsPromise, CallThrottled (Throws (Error 3)),
           Settled 1 (Fulfilled 7)]
        (new_AsyncThrottle \<lparr>maxOutstanding_opt = Some 1, maxQps_opt = None\<rparr>)) =
   Some (Some (Fulfilled 7), 1, Some (Rejected (Error 3)), 1, [1, 3])"
  by code_simp

theorem settlement_fidelity_witness:
  "valid_options \<lparr>maxOutstanding_opt = Some 1, maxQps_opt = None\<rparr> \<and>
   (\<exists>s. run [CallThrottled ReturnsPromise, CallThrottled (Throws (Error 3)),
              Settled 1 (Fulfilled 7)]
           (new_AsyncThrottle \<lparr>maxOutstanding_opt = Some 1, maxQps_opt = None\<rparr>) = Some s \<and>
        submitted s = [1, 3] \<and>
        whenComplete (heap s 1) = Some (Fulfilled 7) \<and> settleCalls (heap s 1) = 1 \<and>
        whenComplete (heap s 3) = Some (Rejected (Error 3)) \<and> settleCalls (heap s 3) = 1 \<and>
        (\<forall>r. whenComplete (heap s r) = produced s r \<and> settleCalls (heap s r) \<le> 1) \<and>
        (queued s \<noteq> [] \<longrightarrow> atMaxQps s \<or> atMaxOutstanding s))"
  using settlement_fidelity[of "\<lparr>maxOutstanding_opt = Some 1, maxQps_opt = None\<rparr>"
      "[CallThrottled ReturnsPromise, CallThrottled (Throws (Error 3)),
        Settled 1 (Fulfilled 7)]"] settlement_run
  by (auto simp: valid_options_def)

subsection \<open>C5: the drain promise\<close>

lemma last_one:
  assumes "w \<in> set xs" and "distinct xs"
  shows "remove1 w xs = [] \<longleftrightarrow> xs = [w]"
  using assms by (cases xs) (auto split: if_splits)

lemma whenDrained_resolved:
  assumes "invar s"
  shows "fst (whenDrained s) \<in> set (resolved (snd (whenDrained s))) \<longleftrightarrow>
           queued s = [] \<and> inflight s = []"
proof (cases "whenQuiescent s")
  case None
  then show ?thesis using assms by (auto simp: whenDrained_def invar_def inv_drain_def)
next
  case (Some p)
  then have "p \<notin> set (resolved s)" "\<not> (queued s = [] \<and> inflight s = [])"
    using assms by (auto simp: invar_def inv_drain_def)
  then show ?thesis using Some by (simp add: whenDrained_def)
qed

text \<open>
  Claim C5.  The future returned by \<open>whenDrained\<close> is resolved if and only if no item is
  queued and no item is outstanding; on an idle throttle \<open>whenDrained\<close> returns a future
  that is already resolved, otherwise the pending drain promise.  Each time the drain
  promise was resolved, nothing was queued or outstanding.  It is resolved by the
  completion that brings \<open>outstandingCount\<close> to zero with no ready work: at the completion
  of an item in flight, \<open>cleanup\<close> resolves it exactly when that item is the only one in
  flight and nothing is queued.

  The theorem is about the state \<open>s\<close> after any events.  Work is only left queued while a
  limit is reached.  A submission to an idle throttle creates the drain promise, which is
  then pending or, if the work is already done, resolved.  Whatever happens afterwards, a
  promise that is resolved stays resolved and the pending drain promise stays the drain
  promise until it is resolved.  And it is resolved: however the host settles the promises
  of the work functions, there are events of the host alone, without further submissions,
  after which nothing is queued or in flight and the drain promise that was pending in
  \<open>s\<close> is resolved.
\<close>

theorem drain_correctness:
  assumes "valid_options options"
  shows "\<exists>s. run es (new_AsyncThrottle options) = Some s \<and>
           (fst (whenDrained s) \<in> set (resolved (snd (whenDrained s))) \<longleftrightarrow>
              queued s = [] \<and> inflight s = []) \<and>
           (whenQuiescent s = None \<longleftrightarrow> queued s = [] \<and> inflight s = []) \<and>
           (\<forall>p. whenQuiescent s = Some p \<longrightarrow> whenDrained s = (p, s) \<and> p \<notin> set (resolved s)) \<and>
           (hasReadyWork s \<longleftrightarrow> queued s \<noteq> []) \<and>
           outstandingCount s = int (length (inflight s)) \<and>
           (\<forall>d \<in> set (drainLog s). fst d = 0 \<and> fst (snd d) = 0) \<and>
           (\<forall>w \<in> set (inflight s).
              (\<exists>s1. cleanup_head w s = Inr s1 \<and>
                 (resolved s1 \<noteq> resolved s \<longleftrightarrow> inflight s = [w] \<and> queued s = []) \<and>
                 (inflight s = [w] \<and> queued s = [] \<longleftrightarrow>
                    outstandingCount s - 1 = 0 \<and> \<not> hasReadyWork s)) \<and>
              (\<forall>out. \<exists>s'. step (Settled w out) s = Some s' \<and>
                 (inflight s = [w] \<and> queued s = [] \<longrightarrow>
                    whenQuiescent s' = None \<and>
                    (\<exists>p. whenQuiescent s = Some p \<and> p \<in> set (resolved s'))))) \<and>
           (queued s \<noteq> [] \<longrightarrow> atMaxQps s \<or> atMaxOutstanding s) \<and>
           (\<forall>sw. \<exists>s'. step (CallThrottled sw) s = Some s' \<and>
              (whenQuiescent s = None \<longrightarrow>
                 fresh s + 1 \<notin> set (resolved s) \<and>
                 (whenQuiescent s' = Some (fresh s + 1) \<or> fresh s + 1 \<in> set (resolved s')))) \<and>
           (\<forall>es' s'. run es' s = Some s' \<longrightarrow>
              set (resolved s) \<subseteq> set (resolved s') \<and>
              (\<forall>p. whenQuiescent s = Some p \<longrightarrow>
                 whenQuiescent s' = Some p \<or> p \<in> set (resolved s'))) \<and>
           (\<forall>f. \<exists>es' s'. run es' s = Some s' \<and> list_all (host_settles f) es' \<and>
              submitted s' = submitted s \<and> queued s' = [] \<and> inflight s' = [] \<and>
              whenQuiescent s' = None \<and>
              (\<forall>p. whenQuiescent s = Some p \<longrightarrow> p \<in> set (resolved s')))"
proof -
  from reachable_stable[OF assms, of es] obtain s where
    s: "run es (new_AsyncThrottle options) = Some s" "at_rest options s" by blast
  have i: "invar s" and sa: "saturated s" using s(2) by (simp_all add: at_rest_def)
  have ih: "inv_hist s" and ir: "inv_ring s" and ic: "inv_count s" and idr: "inv_drain s"
    using i by (simp_all add: invar_def)
  have 1: "whenQuiescent s = None \<longleftrightarrow> queued s = [] \<and> inflight s = []"
    using idr by (auto simp: inv_drain_def)
  have 2: "\<forall>p. whenQuiescent s = Some p \<longrightarrow> whenDrained s = (p, s) \<and> p \<notin> set (resolved s)"
    using idr by (auto simp: inv_drain_def whenDrained_def)
  have 3: "\<forall>d \<in> set (drainLog s). fst d = 0 \<and> fst (snd d) = 0"
    using idr by (simp add: inv_drain_def)
  have 4: "outstandingCount s = int (length (inflight s))" using ic by (simp add: inv_count_def)
  note rw = hasReadyWork_iff[OF ih ir]
  have 5: "(\<exists>s1. cleanup_head w s = Inr s1 \<and>
                 (resolved s1 \<noteq> resolved s \<longleftrightarrow> inflight s = [w] \<and> queued s = []) \<and>
                 (inflight s = [w] \<and> queued s = [] \<longleftrightarrow>
                    outstandingCount s - 1 = 0 \<and> \<not> hasReadyWork s)) \<and>
              (\<forall>out. \<exists>s'. step (Settled w out) s = Some s' \<and>
                 (inflight s = [w] \<and> queued s = [] \<longrightarrow>
                    whenQuiescent s' = None \<and>
                    (\<exists>p. whenQuiescent s = Some p \<and> p \<in> set (resolved s'))))"
    if w: "w \<in> set (inflight s)" for w
  proof -
    have d: "distinct (inflight s)" using ic by (simp add: inv_count_def)
    note lo = last_one[OF w d]
    from cleanup_head_ok[OF i w] obtain s1 where
      s1: "cleanup_head w s = Inr s1"
        "drainLog s1 = drainLog s \<and> resolved s1 = resolved s \<and>
              whenQuiescent s1 = whenQuiescent s \<and> whenQuiescent s \<noteq> None \<and>
              \<not> (remove1 w (inflight s) = [] \<and> queued s = []) \<or>
            (\<exists>p. whenQuiescent s = Some p \<and> whenQuiescent s1 = None \<and>
                 resolved s1 = p # resolved s \<and>
                 drainLog s1 = drainLog s @ [(0, 0, length (tracked s))] \<and>
                 remove1 w (inflight s) = [] \<and> queued s = [])"
      by blast
    have a: "resolved s1 \<noteq> resolved s \<longleftrightarrow> inflight s = [w] \<and> queued s = []"
      using s1(2) lo by auto
    have "inflight s = [w] \<longleftrightarrow> outstandingCount s - 1 = 0"
    proof
      assume "inflight s = [w]" then show "outstandingCount s - 1 = 0" using 4 by simp
    next
      assume "outstandingCount s - 1 = 0"
      then have "length (inflight s) = 1" using 4 by simp
      then show "inflight s = [w]" using w by (cases "inflight s") auto
    qed
    then have b: "inflight s = [w] \<and> queued s = [] \<longleftrightarrow>
                    outstandingCount s - 1 = 0 \<and> \<not> hasReadyWork s"
      using rw by simp
    have c: "\<exists>s'. step (Settled w out) s = Some s' \<and>
                 (inflight s = [w] \<and> queued s = [] \<longrightarrow>
                    whenQuiescent s' = None \<and>
                    (\<exists>p. whenQuiescent s = Some p \<and> p \<in> set (resolved s')))" for out
    proof -
      from on_settled_ok[OF s(2) w, of out] obtain s2 where
        s2: "good (Cleanup w) s s2" "on_settled w out s = Some (deliver w out s2)"
          "at_rest options (deliver w out s2)" by blast
      let ?s = "deliver w out s2"
      have st: "step (Settled w out) s = Some ?s" using s2(2) w by (simp add: step_def)
      have "whenQuiescent ?s = None \<and> (\<exists>p. whenQuiescent s = Some p \<and> p \<in> set (resolved ?s))"
        if l: "inflight s = [w] \<and> queued s = []"
      proof -
        have e: "extends s s2" using s2(1) by (simp add: good_def)
        have "queued s2 = []" using extends_queued(1)[OF e] l by simp
        moreover have "set (inflight s2) \<subseteq> set (remove1 w (inflight s)) \<union> set (queued s)"
          using s2(1) by (simp add: good_def)
        then have "inflight s2 = []" using l by simp
        ultimately have "whenQuiescent ?s = None"
          using s2(3) by (simp add: at_rest_def invar_def inv_drain_def)
        moreover have "\<exists>p. whenQuiescent s = Some p \<and> p \<in> set (resolved s2)"
          using s2(1) l by (simp add: good_def)
        ultimately show ?thesis by simp
      qed
      then show ?thesis using st by blast
    qed
    show ?thesis using s1(1) a b c by blast
  qed
  have 6: "\<forall>w \<in> set (inflight s).
              (\<exists>s1. cleanup_head w s = Inr s1 \<and>
                 (resolved s1 \<noteq> resolved s \<longleftrightarrow> inflight s = [w] \<and> queued s = []) \<and>
                 (inflight s = [w] \<and> queued s = [] \<longleftrightarrow>
                    outstandingCount s - 1 = 0 \<and> \<not> hasReadyWork s)) \<and>
              (\<forall>out. \<exists>s'. step (Settled w out) s = Some s' \<and>
                 (inflight s = [w] \<and> queued s = [] \<longrightarrow>
                    whenQuiescent s' = None \<and>
                    (\<exists>p. whenQuiescent s = Some p \<and> p \<in> set (resolved s'))))"
    by (intro ballI) (rule 5)
  have 7: "queued s \<noteq> [] \<longrightarrow> atMaxQps s \<or> atMaxOutstanding s"
    using sa rw by (auto simp: saturated_def canExecuteWork_def)
  have 8: "\<forall>sw. \<exists>s'. step (CallThrottled sw) s = Some s' \<and>
              (whenQuiescent s = None \<longrightarrow>
                 fresh s + 1 \<notin> set (resolved s) \<and>
                 (whenQuiescent s' = Some (fresh s + 1) \<or> fresh s + 1 \<in> set (resolved s')))"
  proof
    fix sw
    from callThrottled_ok[OF s(2), of sw] obtain s' where
      c: "callThrottled sw s = Some (fresh s, s')"
      and g: "good ProcessWork (enqueue sw s) s'" by blast
    have st: "step (CallThrottled sw) s = Some s'" using c by (simp add: step_def)
    have e: "extends (enqueue sw s) s'" using g by (simp add: good_def)
    have nr: "fresh s + 1 \<notin> set (resolved s)" using idr by (auto simp: inv_drain_def)
    have cr: "whenQuiescent s' = Some (fresh s + 1) \<or> fresh s + 1 \<in> set (resolved s')"
      if "whenQuiescent s = None"
    proof -
      have "whenQuiescent (enqueue sw s) = Some (fresh s + 1)"
        using that by (simp add: enqueue_drain)
      then show ?thesis using e by (simp add: extends_def)
    qed
    have "step (CallThrottled sw) s = Some s' \<and>
              (whenQuiescent s = None \<longrightarrow>
                 fresh s + 1 \<notin> set (resolved s) \<and>
                 (whenQuiescent s' = Some (fresh s + 1) \<or> fresh s + 1 \<in> set (resolved s')))"
      using st nr cr by simp
    then show "\<exists>s'. step (CallThrottled sw) s = Some s' \<and>
              (whenQuiescent s = None \<longrightarrow>
                 fresh s + 1 \<notin> set (resolved s) \<and>
                 (whenQuiescent s' = Some (fresh s + 1) \<or> fresh s + 1 \<in> set (resolved s')))"
      by (rule exI)
  qed
  have 9: "\<forall>es' s'. run es' s = Some s' \<longrightarrow>
              set (resolved s) \<subseteq> set (resolved s') \<and>
              (\<forall>p. whenQuiescent s = Some p \<longrightarrow>
                 whenQuiescent s' = Some p \<or> p \<in> set (resolved s'))"
    using run_keeps_drain[OF s(2)] by blast
  have 10: "\<forall>f. \<exists>es' s'. run es' s = Some s' \<and> list_all (host_settles f) es' \<and>
              submitted s' = submitted s \<and> queued s' = [] \<and> inflight s' = [] \<and>
              whenQuiescent s' = None \<and>
              (\<forall>p. whenQuiescent s = Some p \<longrightarrow> p \<in> set (resolved s'))"
  proof
    fix f
    from drains_outcomes[OF assms s(2), of f]
    show "\<exists>es' s'. run es' s = Some s' \<and> list_all (host_settles f) es' \<and>
              submitted s' = submitted s \<and> queued s' = [] \<and> inflight s' = [] \<and>
              whenQuiescent s' = None \<and>
              (\<forall>p. whenQuiescent s = Some p \<longrightarrow> p \<in> set (resolved s'))"
      by blast
  qed
  show ?thesis
    apply (rule exI[of _ s])
    apply (intro conjI)
              apply (rule s(1))
             apply (rule whenDrained_resolved[OF i])
            apply (rule 1)
           apply (rule 2)
          apply (rule rw)
         apply (rule 4)
        apply (rule 3)
       apply (rule 6)
      apply (rule 7)
     apply (rule 8)
    apply (rule 9)
   apply (rule 10)
    done
qed

lemma drain_runs:
  "map_option (\<lambda>s. (inflight s, queued s, whenQuiescent s, resolved s))
     (run [CallThrottled ReturnsPromise]
        (new_AsyncThrottle \<lparr>maxOutstanding_opt = None, maxQps_opt = None\<rparr>)) =
   Some ([1], [], Some 2, [])"
  "map_option (\<lambda>s. (inflight s, queued s, whenQuiescent s, resolved s, drainLog s))
     (run [CallThrottled ReturnsPromise, Settled 1 (Fulfilled 7)]
        (new_AsyncThrottle \<lparr>maxOutstanding_opt = None, maxQps_opt = None\<rparr>)) =
   Some ([], [], None, [2], [(0, 0, 1)])"
  by code_simp+

theorem drain_correctness_witness:
  "valid_options \<lparr>maxOutstanding_opt = None, maxQps_opt = None\<rparr> \<and>
   (\<exists>s. run [CallThrottled ReturnsPromise]
           (new_AsyncThrottle \<lparr>maxOutstanding_opt = None, maxQps_opt = None\<rparr>) = Some s \<and>
        inflight s = [1] \<and> whenQuiescent s = Some 2 \<and> whenDrained s = (2, s) \<and>
        2 \<notin> set (resolved s) \<and>
        (\<exists>s'. step (Settled 1 (Fulfilled 7)) s = Some s' \<and> whenQuiescent s' = None \<and>
              2 \<in> set (resolved s'))) \<and>
   (\<exists>s. run [CallThrottled ReturnsPromise, Settled 1 (Fulfilled 7)]
           (new_AsyncThrottle \<lparr>maxOutstanding_opt = None, maxQps_opt = None\<rparr>) = Some s \<and>
        resolved s = [2] \<and> drainLog s = [(0, 0, 1)] \<and> queued s = [] \<and> inflight s = [] \<and>
        fst (whenDrained s) \<in> set (resolved (snd (whenDrained s))))"
proof -
  let ?o = "\<lparr>maxOutstanding_opt = None, maxQps_opt = None\<rparr>"
  have v: "valid_options ?o" by (simp add: valid_options_def)
  from drain_correctness[OF v, of "[CallThrottled ReturnsPromise]"] obtain s where
    s: "run [CallThrottled ReturnsPromise] (new_AsyncThrottle ?o) = Some s"
    and d: "\<forall>p. whenQuiescent s = Some p \<longrightarrow> whenDrained s = (p, s) \<and> p \<notin> set (resolved s)"
    and c: "\<forall>w \<in> set (inflight s).
              (\<exists>s1. cleanup_head w s = Inr s1 \<and>
                 (resolved s1 \<noteq> resolved s \<longleftrightarrow> inflight s = [w] \<and> queued s = []) \<and>
                 (inflight s = [w] \<and> queued s = [] \<longleftrightarrow>
                    outstandingCount s - 1 = 0 \<and> \<not> hasReadyWork s)) \<and>
              (\<forall>out. \<exists>s'. step (Settled w out) s = Some s' \<and>
                 (inflight s = [w] \<and> queued s = [] \<longrightarrow>
                    whenQuiescent s' = None \<and>
                    (\<exists>p. whenQuiescent s = Some p \<and> p \<in> set (resolved s'))))"
    by (elim exE conjE)
  have e: "inflight s = [1]" "queued s = []" "whenQuiescent s = Some 2"
    using drain_runs(1) s by simp_all
  from c e(1) have "\<exists>s'. step (Settled 1 (Fulfilled 7)) s = Some s' \<and>
                 (inflight s = [1] \<and> queued s = [] \<longrightarrow>
                    whenQuiescent s' = None \<and>
                    (\<exists>p. whenQuiescent s = Some p \<and> p \<in> set (resolved s')))"
    by simp
  then have a: "\<exists>s'. step (Settled 1 (Fulfilled 7)) s = Some s' \<and> whenQuiescent s' = None \<and>
              2 \<in> set (resolved s')"
    using e by auto
  have 1: "\<exists>s. run [CallThrottled ReturnsPromise] (new_AsyncThrottle ?o) = Some s \<and>
        inflight s = [1] \<and> whenQuiescent s = Some 2 \<and> whenDrained s = (2, s) \<and>
        2 \<notin> set (resolved s) \<and>
        (\<exists>s'. step (Settled 1 (Fulfilled 7)) s = Some s' \<and> whenQuiescent s' = None \<and>
              2 \<in> set (resolved s'))"
    using s e d a by (intro exI[of _ s]) simp
  from drain_correctness[OF v, of "[CallThrottled ReturnsPromise, Settled 1 (Fulfilled 7)]"]
  obtain t where
    t: "run [CallThrottled ReturnsPromise, Settled 1 (Fulfilled 7)] (new_AsyncThrottle ?o) =
          Some t"
    and w: "fst (whenDrained t) \<in> set (resolved (snd (whenDrained t))) \<longleftrightarrow>
              queued t = [] \<and> inflight t = []"
    by (elim exE conjE)
  have "resolved t = [2]" "drainLog t = [(0, 0, 1)]" "queued t = []" "inflight t = []"
    using drain_runs(2) t by simp_all
  then have 2: "\<exists>s. run [CallThrottled ReturnsPromise, Settled 1 (Fulfilled 7)]
           (new_AsyncThrottle ?o) = Some s \<and>
        resolved s = [2] \<and> drainLog s = [(0, 0, 1)] \<and> queued s = [] \<and> inflight s = [] \<and>
        fst (whenDrained s) \<in> set (resolved (snd (whenDrained s)))"
    using t w by (intro exI[of _ t]) simp
  show ?thesis using v 1 2 by (intro conjI)
qed

subsection \<open>C9: what is left when the drain promise resolves\<close>

text \<open>
  Claim C9 says that when the drain promise resolves no item is queued, none is in
  flight and none is tracked for the QPS window any more.  The last part fails: the
  promise resolves at the completion of the last item, which stays linked and counted
  until its window of 1000ms has passed.  Here one item is submitted and completes at
  once; the drain promise is resolved with one item still linked.
\<close>

theorem drained_while_tracked_counterexample:
  "map_option drainLog
     (run [CallThrottled ReturnsPromise, Settled 1 (Fulfilled 0)]
        (new_AsyncThrottle \<lparr>maxOutstanding_opt = None, maxQps_opt = None\<rparr>)) =
     Some [(0, 0, 1)] \<and>
   map_option resolved
     (run [CallThrottled ReturnsPromise, Settled 1 (Fulfilled 0)]
        (new_AsyncThrottle \<lparr>maxOutstanding_opt = None, maxQps_opt = None\<rparr>)) =
     Some [2] \<and>
   map_option qpsCount
     (run [CallThrottled ReturnsPromise, Settled 1 (Fulfilled 0)]
        (new_AsyncThrottle \<lparr>maxOutstanding_opt = None, maxQps_opt = None\<rparr>)) =
     Some 1 \<and>
   map_option first
     (run [CallThrottled ReturnsPromise, Settled 1 (Fulfilled 0)]
        (new_AsyncThrottle \<lparr>maxOutstanding_opt = None, maxQps_opt = None\<rparr>)) =
     Some 1"
  by code_simp

text \<open>
  Claim C9, amended.  When the drain promise resolves, no item is queued and no item is
  started but incomplete; items started within the preceding 1000ms may still be linked
  and counted for the QPS window.  Whenever no drain promise is pending, every item
  submitted so far has been started and has completed.
\<close>

theorem drained_means_idle:
  assumes "valid_options options"
  shows "\<exists>s. run es (new_AsyncThrottle options) = Some s \<and>
           (\<forall>d \<in> set (drainLog s). fst d = 0 \<and> fst (snd d) = 0) \<and>
           (whenQuiescent s = None \<longrightarrow>
              queued s = [] \<and> inflight s = [] \<and> outstandingCount s = 0 \<and>
              \<not> hasReadyWork s \<and> started s = submitted s \<and>
              (\<forall>r \<in> set (submitted s). whenComplete (heap s r) \<noteq> None))"
proof -
  from reachable_stable[OF assms, of es] obtain s where
    s: "run es (new_AsyncThrottle options) = Some s" "at_rest options s" by blast
  have i: "invar s" and z: "settled_except {} s" using s(2) by (simp_all add: at_rest_def)
  have ih: "inv_hist s" and ir: "inv_ring s" and ic: "inv_count s" and idr: "inv_drain s"
    using i by (simp_all add: invar_def)
  have 1: "\<forall>d \<in> set (drainLog s). fst d = 0 \<and> fst (snd d) = 0"
    using idr by (simp add: inv_drain_def)
  have 2: "queued s = [] \<and> inflight s = [] \<and> outstandingCount s = 0 \<and>
              \<not> hasReadyWork s \<and> started s = submitted s \<and>
              (\<forall>r \<in> set (submitted s). whenComplete (heap s r) \<noteq> None)"
    if "whenQuiescent s = None"
  proof -
    have q: "queued s = []" "inflight s = []" using idr that by (auto simp: inv_drain_def)
    then have a: "outstandingCount s = 0" "\<not> hasReadyWork s" "started s = submitted s"
      using ic hasReadyWork_iff[OF ih ir] hist_split[OF ih] by (simp_all add: inv_count_def)
    have "\<forall>r \<in> set (submitted s). produced s r \<noteq> None"
      using z q(2) a(3) unfolding settled_except_def by simp
    then show ?thesis using q a future_is_produced(1)[OF i] by simp
  qed
  have 3: "whenQuiescent s = None \<longrightarrow>
              queued s = [] \<and> inflight s = [] \<and> outstandingCount s = 0 \<and>
              \<not> hasReadyWork s \<and> started s = submitted s \<and>
              (\<forall>r \<in> set (submitted s). whenComplete (heap s r) \<noteq> None)"
    by (intro impI) (rule 2)
  show ?thesis using s(1) 1 3
    by (intro exI[of _ s] conjI) assumption+
qed

theorem drained_means_idle_witness:
  "valid_options \<lparr>maxOutstanding_opt = None, maxQps_opt = None\<rparr> \<and>
   (\<exists>s. run [CallThrottled ReturnsPromise, Settled 1 (Fulfilled 0)]
           (new_AsyncThrottle \<lparr>maxOutstanding_opt = None, maxQps_opt = None\<rparr>) = Some s \<and>
        (\<forall>d \<in> set (drainLog s). fst d = 0 \<and> fst (snd d) = 0))"
  using drained_means_idle[of "\<lparr>maxOutstanding_opt = None, maxQps_opt = None\<rparr>"
      "[CallThrottled ReturnsPromise, Settled 1 (Fulfilled 0)]"]
  by (auto simp: valid_options_def)

subsection \<open>C10: a limit of zero\<close>

text \<open>
  Claim C10.  A throttle constructed with \<open>maxOutstanding: 0\<close> or \<open>maxQps: 0\<close> is the
  throttle constructed without that field: the limit is \<open>Number.MAX_SAFE_INTEGER\<close>, not
  zero, and submitted work is started.
\<close>

theorem zero_limit_is_no_limit:
  "new_AsyncThrottle (options\<lparr>maxOutstanding_opt := Some 0\<rparr>) =
     new_AsyncThrottle (options\<lparr>maxOutstanding_opt := None\<rparr>) \<and>
   new_AsyncThrottle (options\<lparr>maxQps_opt := Some 0\<rparr>) =
     new_AsyncThrottle (options\<lparr>maxQps_opt := None\<rparr>) \<and>
   maxOutstanding (new_AsyncThrottle (options\<lparr>maxOutstanding_opt := Some 0\<rparr>)) =
     MAX_SAFE_INTEGER \<and>
   maxQps (new_AsyncThrottle (options\<lparr>maxQps_opt := Some 0\<rparr>)) = MAX_SAFE_INTEGER \<and>
   map_option started
     (run [CallThrottled ReturnsPromise, CallThrottled ReturnsPromise]
        (new_AsyncThrottle \<lparr>maxOutstanding_opt = Some 0, maxQps_opt = Some 0\<rparr>)) =
     Some [1, 3]"
proof -
  have "map_option started
     (run [CallThrottled ReturnsPromise, CallThrottled ReturnsPromise]
        (new_AsyncThrottle \<lparr>maxOutstanding_opt = Some 0, maxQps_opt = Some 0\<rparr>)) =
     Some [1, 3]"
    by code_simp
  then show ?thesis by (simp add: new_AsyncThrottle_def or_default_def)
qed

subsection \<open>C6: a work function that throws\<close>

text \<open>
  Claim C6.  A work function that throws is treated like one whose promise is rejected:
  when the admission loop starts such an item, \<open>execute\<close> does what the reactions to a
  rejection with the thrown error do in the state where the item has just been started.
  The item's future is rejected with the thrown error, the item is no longer counted as
  outstanding, it stays linked and counted for the QPS window until 1000ms after its
  start, the drain promise is resolved if this was the last work, and another admission
  pass has run if the outstanding limit was saturated.
\<close>

theorem sync_throw_like_rejection:
  assumes "invar s0" and "hasReadyWork s0" and "canExecuteWork s0"
    and "startWork (heap s0 (fst (admit s0))) = Throws e"
  shows "execute (fst (admit s0)) (snd (admit s0)) =
           on_settled (fst (admit s0)) (Rejected e) (start s0) \<and>
         (\<exists>s'. execute (fst (admit s0)) (snd (admit s0)) = Some s' \<and> invar s' \<and>
            whenComplete (heap s' (fst (admit s0))) = Some (Rejected e) \<and>
            settleCalls (heap s' (fst (admit s0))) = 1 \<and>
            fst (admit s0) \<notin> set (inflight s') \<and>
            outstandingCount s' = int (length (inflight s')) \<and>
            fst (admit s0) \<in> set (tracked s') \<and>
            expirationTime (heap s' (fst (admit s0))) = now s0 + 1000 \<and>
            qpsCount s' = int (length (tracked s')) \<and>
            (whenQuiescent s' = None \<longleftrightarrow> inflight s' = [] \<and> queued s' = []) \<and>
            (inflight s0 = [] \<and> queued s0 = [fst (admit s0)] \<longrightarrow>
               (\<exists>p. whenQuiescent s0 = Some p \<and> p \<in> set (resolved s'))) \<and>
            (atMaxOutstanding (start s0) \<longrightarrow> saturated s' \<and> timer_ok s'))"
proof -
  let ?w = "fst (admit s0)" and ?s = "snd (admit s0)"
  let ?s1 = "start s0"
  note st = start_inv[OF assms(1-3)]
  have b: "begin_execute ?w ?s = ?s1" by (simp add: start_def)
  have i1: "invar ?s1" using st(1) .
  have th: "startWork (heap ?s1 ?w) = Throws e" using assms(4) by (simp flip: b)
  have wi: "?w \<in> set (inflight ?s1)" by simp
  have "pre (Cleanup ?w) ?s1" using i1 wi by simp
  from call_ok[OF this] obtain s2 where
    s2: "call (Cleanup ?w) ?s1 = Some (None, s2)" "good (Cleanup ?w) ?s1 s2" by blast
  let ?s' = "deliver ?w (Rejected e) s2"
  have ex: "call (Execute ?w) ?s = Some (None, ?s')"
    using th s2(1) b by (subst call_Execute) simp
  have pe: "pre (Execute ?w) ?s"
    using st start_unexpired[OF assms(1-3)] start_due[OF assms(1-3)]
    by (cases "queued s0") (auto simp: b purge_admit_due)
  from call_ok[OF pe] ex have g: "good (Execute ?w) ?s ?s'" by simp
  have eq: "execute ?w ?s = on_settled ?w (Rejected e) ?s1"
    using ex s2(1) by (simp add: execute_def on_settled_def cleanup_def)
  have i': "invar ?s'" using g by (simp add: good_def)
  have p': "produced ?s' ?w = Some (Rejected e)" by simp
  have f: "whenComplete (heap ?s' ?w) = Some (Rejected e)" "settleCalls (heap ?s' ?w) = 1"
    using future_is_produced[OF i', of ?w] p' by simp_all
  have nf: "?w \<notin> set (inflight ?s')" using g th by (simp add: good_def b)
  have e2: "extends ?s1 s2" using s2(2) by (simp add: good_def)
  let ?e = "(?w, now s0, length (inflight s0) + 1)"
  have "?e \<in> set (startLog ?s1)" by simp
  moreover have "set (startLog ?s1) \<subseteq> set (startLog s2)"
    using e2 set_take_subset[of "length (startLog ?s1)" "startLog s2"]
    by (simp add: extends_def)
  ultimately have el: "?e \<in> set (startLog ?s')" by auto
  have it': "inv_time ?s'" and ic': "inv_count ?s'" and idr': "inv_drain ?s'"
    using i' by (simp_all add: invar_def)
  have nw: "now ?s' = now s0" using e2 by (simp add: extends_def)
  have tr: "?w \<in> set (tracked ?s')"
    using tracked_unexpired[OF it' el] nw by (simp add: start_time_def)
  have xp: "expirationTime (heap ?s' ?w) = now s0 + 1000"
    using expiration_started[OF it' el] by (simp add: start_time_def)
  have cn: "outstandingCount ?s' = int (length (inflight ?s'))"
    "qpsCount ?s' = int (length (tracked ?s'))"
    using ic' by (simp_all add: inv_count_def)
  have dr: "whenQuiescent ?s' = None \<longleftrightarrow> inflight ?s' = [] \<and> queued ?s' = []"
    using idr' by (simp add: inv_drain_def)
  have "whenQuiescent ?s = whenQuiescent s0" by (simp add: admit_snd)
  then have ld: "inflight s0 = [] \<and> queued s0 = [?w] \<longrightarrow>
               (\<exists>p. whenQuiescent s0 = Some p \<and> p \<in> set (resolved ?s'))"
    using g th by (simp add: good_def b)
  have sa: "atMaxOutstanding ?s1 \<longrightarrow> saturated ?s' \<and> timer_ok ?s'"
    using g th by (simp add: good_def b)
  have "execute ?w ?s = Some ?s'" using ex by (simp add: execute_def)
  then have "\<exists>s'. execute ?w ?s = Some s' \<and> invar s' \<and>
            whenComplete (heap s' ?w) = Some (Rejected e) \<and>
            settleCalls (heap s' ?w) = 1 \<and>
            ?w \<notin> set (inflight s') \<and>
            outstandingCount s' = int (length (inflight s')) \<and>
            ?w \<in> set (tracked s') \<and>
            expirationTime (heap s' ?w) = now s0 + 1000 \<and>
            qpsCount s' = int (length (tracked s')) \<and>
            (whenQuiescent s' = None \<longleftrightarrow> inflight s' = [] \<and> queued s' = []) \<and>
            (inflight s0 = [] \<and> queued s0 = [?w] \<longrightarrow>
               (\<exists>p. whenQuiescent s0 = Some p \<and> p \<in> set (resolved s'))) \<and>
            (atMaxOutstanding ?s1 \<longrightarrow> saturated s' \<and> timer_ok s')"
    using i' f nf cn tr xp dr ld sa by (intro exI[of _ ?s'] conjI) assumption+
  then show ?thesis using eq by (intro conjI) assumption+
qed

theorem sync_throw_like_rejection_witness:
  "invar (enqueue (Throws (Error 1)) (new_AsyncThrottle \<lparr>maxOutstanding_opt = Some 1, maxQps_opt = None\<rparr>)) \<and>
   hasReadyWork (enqueue (Throws (Error 1)) (new_AsyncThrottle \<lparr>maxOutstanding_opt = Some 1, maxQps_opt = None\<rparr>)) \<and>
   canExecuteWork (enqueue (Throws (Error 1)) (new_AsyncThrottle \<lparr>maxOutstanding_opt = Some 1, maxQps_opt = None\<rparr>)) \<and>
   (\<exists>s w. execute w (snd (admit (enqueue (Throws (Error 1))
                (new_AsyncThrottle \<lparr>maxOutstanding_opt = Some 1, maxQps_opt = None\<rparr>)))) = Some s \<and>
      whenComplete (heap s w) = Some (Rejected (Error 1)) \<and> w \<notin> set (inflight s) \<and>
      w \<in> set (tracked s) \<and> outstandingCount s = int (length (inflight s)))"
proof -
  let ?o = "\<lparr>maxOutstanding_opt = Some 1, maxQps_opt = None\<rparr>"
  let ?s0 = "enqueue (Throws (Error 1)) (new_AsyncThrottle ?o)"
  have "valid_options ?o" by (simp add: valid_options_def)
  then have i: "invar ?s0" by (intro enqueue_inv(1) init_inv)
  have r: "hasReadyWork ?s0" by code_simp
  have c: "canExecuteWork ?s0" by code_simp
  have t: "startWork (heap ?s0 (fst (admit ?s0))) = Throws (Error 1)" by code_simp
  from sync_throw_like_rejection[OF i r c t] i r c show ?thesis by blast
qed

subsection \<open>C7: the expiration timer\<close>





subsection \<open>C8: callAllThrottled\<close>

lemma callAllThrottled_empty:
  "callAllThrottled [] options =
     Some \<lparr>agg = \<lparr>rejected = False, results = [], outstandingResultCount = 0, promise = None\<rparr>,
           throttle = new_AsyncThrottle options, futures = [], reacted = []\<rparr>"
  by (simp add: callAllThrottled_def)

lemma idle_step:
  assumes "futures a = []" and "promise (agg a) = None"
    and "inflight (throttle a) = []" and "timers (throttle a) = []"
  shows "\<exists>a'. all_step ev a = Some a' \<and> futures a' = [] \<and> promise (agg a') = None \<and>
              inflight (throttle a') = [] \<and> timers (throttle a') = []"
proof (cases ev)
  case (Host e)
  then show ?thesis using assms by (cases e) (simp_all add: all_step_def step_def)
next
  case (React i)
  then show ?thesis using assms by (simp add: all_step_def)
qed

lemma idle_run:
  assumes "futures a = []" and "promise (agg a) = None"
    and "inflight (throttle a) = []" and "timers (throttle a) = []"
  shows "\<exists>a'. all_run evs a = Some a' \<and> promise (agg a') = None"
  using assms
proof (induction evs arbitrary: a)
  case Nil
  then show ?case by simp
next
  case (Cons ev evs)
  from idle_step[OF Cons.prems, of ev] obtain a1 where
    a1: "all_step ev a = Some a1" "futures a1 = []" "promise (agg a1) = None"
      "inflight (throttle a1) = []" "timers (throttle a1) = []" by blast
  from Cons.IH[OF a1(2-5)] a1(1) show ?case by simp
qed

text \<open>
  Claim C8 at the empty array.  The claim lets the returned future resolve with all
  results once every item has fulfilled, which for no items is at once, as \<open>Promise.all\<close>
  does.  In the code \<open>resolve\<close> is only called by the reaction of an item, so for the
  empty array the returned promise stays pending whatever happens afterwards.
\<close>

theorem callAllThrottled_empty_never_settles:
  "\<exists>a. Option.bind (callAllThrottled [] options) (all_run evs) = Some a \<and>
       promise (agg a) = None \<and> outstandingResultCount (agg a) = 0 \<and> futures a = []"
proof -
  let ?a = "\<lparr>agg = \<lparr>rejected = False, results = [], outstandingResultCount = 0, promise = None\<rparr>,
           throttle = new_AsyncThrottle options, futures = [], reacted = []\<rparr>"
  have "\<exists>a'. all_run evs a = Some a' \<and> promise (agg a') = None \<and>
          outstandingResultCount (agg a') = 0 \<and> futures a' = []"
    if "futures a = []" "promise (agg a) = None" "outstandingResultCount (agg a) = 0"
      "inflight (throttle a) = []" "timers (throttle a) = []" for a
    using that
  proof (induction evs arbitrary: a)
    case Nil
    then show ?case by simp
  next
    case (Cons ev evs)
    from idle_step[OF Cons.prems(1,2,4,5), of ev] obtain a1 where
      a1: "all_step ev a = Some a1" "futures a1 = []" "promise (agg a1) = None"
        "inflight (throttle a1) = []" "timers (throttle a1) = []" by blast
    have "agg a1 = agg a"
      using a1(1) Cons.prems(1)
      by (cases ev) (auto simp: all_step_def split: event.splits)
    then have "outstandingResultCount (agg a1) = 0" using Cons.prems(3) by simp
    from Cons.IH[OF a1(2,3) this a1(4,5)] a1(1) show ?case by simp
  qed
  from this[of ?a] show ?thesis
    by (simp add: callAllThrottled_empty new_AsyncThrottle_def)
qed

text \<open>
  For an array that is not empty the reactions do what the claim says, in whatever order
  the futures of the items settle: once the promise is settled no reaction changes it,
  the first rejection settles it with its error, and when every item has fulfilled it is
  resolved with the values in input order.
\<close>

lemma aggregate_settled_once:
  assumes "promise a = Some x"
  shows "promise (on_value i v a) = Some x" and "promise (on_error e a) = Some x"
  using assms by (simp_all add: on_value_def on_error_def settle_all_def Let_def)

lemma aggregate_first_error:
  assumes "promise a = None" and "\<not> rejected a"
  shows "promise (on_error e a) = Some (AllRejected e)" and "rejected (on_error e a)"
  using assms by (simp_all add: on_error_def settle_all_def)

lemma aggregate_all_values:
  assumes "distinct (map fst ivs)" and "\<forall>i \<in> set (map fst ivs). i < n"
  shows "outstandingResultCount
           (fold (\<lambda>(i, v). on_value i v) ivs
              \<lparr>rejected = False, results = replicate n None,
               outstandingResultCount = int n, promise = None\<rparr>) = int n - int (length ivs) \<and>
         results
           (fold (\<lambda>(i, v). on_value i v) ivs
              \<lparr>rejected = False, results = replicate n None,
               outstandingResultCount = int n, promise = None\<rparr>) = map (map_of ivs) [0..<n] \<and>
         promise
           (fold (\<lambda>(i, v). on_value i v) ivs
              \<lparr>rejected = False, results = replicate n None,
               outstandingResultCount = int n, promise = None\<rparr>) =
           (if length ivs = n \<and> 0 < n then Some (AllFulfilled (map (map_of ivs) [0..<n]))
            else None)"
  using assms
proof (induction ivs rule: rev_induct)
  case Nil
  have "replicate n None = map (\<lambda>i. None :: val option) [0..<n]"
    by (simp add: map_replicate_const)
  then show ?case by auto
next
  case (snoc iv ivs)
  obtain i v where iv: "iv = (i, v)" by (cases iv)
  let ?init = "\<lparr>rejected = False, results = replicate n None,
               outstandingResultCount = int n, promise = None\<rparr>"
  let ?a = "fold (\<lambda>(i, v). on_value i v) ivs ?init"
  have d: "distinct (map fst ivs)" and b: "\<forall>i \<in> set (map fst ivs). i < n"
    and ni: "i \<notin> fst ` set ivs" and il: "i < n"
    using snoc.prems iv by auto
  from snoc.IH[OF d b] have
    c: "outstandingResultCount ?a = int n - int (length ivs)"
    and r: "results ?a = map (map_of ivs) [0..<n]"
    and p: "promise ?a = (if length ivs = n \<and> 0 < n
              then Some (AllFulfilled (map (map_of ivs) [0..<n])) else None)"
    by simp_all
  have "card (fst ` set ivs) = length ivs"
    using d by (metis distinct_card length_map set_map)
  moreover have "fst ` set ivs \<subseteq> {..<n} - {i}" using b ni by auto
  then have "card (fst ` set ivs) \<le> card ({..<n} - {i})" by (intro card_mono) auto
  ultimately have ln: "length ivs < n" using il by simp
  then have pn: "promise ?a = None" using p by simp
  have m: "(map (map_of ivs) [0..<n])[i := Some v] = map (map_of (ivs @ [(i, v)])) [0..<n]"
  proof (rule nth_equalityI)
    show "length ((map (map_of ivs) [0..<n])[i := Some v]) =
          length (map (map_of (ivs @ [(i, v)])) [0..<n])" by simp
  next
    fix j assume "j < length ((map (map_of ivs) [0..<n])[i := Some v])"
    then have j: "j < n" by simp
    show "(map (map_of ivs) [0..<n])[i := Some v] ! j =
          map (map_of (ivs @ [(i, v)])) [0..<n] ! j"
    proof (cases "j = i")
      case True
      have "map_of ivs i = None" using ni by (simp add: map_of_eq_None_iff)
      then show ?thesis using True j by (simp add: map_add_def)
    next
      case False
      then show ?thesis using j by (simp add: map_add_def split: option.split)
    qed
  qed
  have f: "fold (\<lambda>(i, v). on_value i v) (ivs @ [iv]) ?init = on_value i v ?a"
    unfolding iv by (simp only: fold_append comp_def fold_simps prod.case)
  have "int n - int (length ivs) - 1 = 0 \<longleftrightarrow> Suc (length ivs) = n" using ln by auto
  then show ?case
    unfolding f using c r pn m ln iv
    by (auto simp: on_value_def settle_all_def Let_def)
qed

end
